theory Spec2Isabelle
  imports Main "HOL-Library.Monad_Syntax" "HOL-Library.Multiset"
begin

section \<open>Strings and JSON values\<close>

text \<open>
  JavaScript strings are modelled as \<^typ>\<open>string\<close>; a \<^typ>\<open>char\<close> stands for one
  code unit. The functions below only compare code units with the ASCII characters
  \<open>#\<close>, \<open>/\<close>, \<open>~\<close> and the digits, so nothing depends on the width of a unit.
\<close>

text \<open>\<open>s.split(c)\<close> for a one-character separator: never the empty list.\<close>

fun split_on :: "char \<Rightarrow> string \<Rightarrow> string list" where
  "split_on c [] = [[]]"
| "split_on c (x # xs) =
     (if x = c then [] # split_on c xs
      else (case split_on c xs of [] \<Rightarrow> [[x]] | y # ys \<Rightarrow> (x # y) # ys))"

text \<open>\<open>s.startsWith(p)\<close>.\<close>

fun startsWith :: "string \<Rightarrow> string \<Rightarrow> bool" where
  "startsWith s [] = True"
| "startsWith [] (p # ps) = False"
| "startsWith (x # xs) (p # ps) = (x = p \<and> startsWith xs ps)"

text \<open>
  \<open>s.replace(/~1/g, "/")\<close> and \<open>s.replace(/~0/g, "~")\<close>: every match of the
  two-character pattern, found from the left without overlap, is replaced.
\<close>

fun replace_tilde1 :: "string \<Rightarrow> string" where
  "replace_tilde1 (a # b # xs) =
     (if a = CHR ''~'' \<and> b = CHR ''1'' then CHR ''/'' # replace_tilde1 xs
      else a # replace_tilde1 (b # xs))"
| "replace_tilde1 xs = xs"

fun replace_tilde0 :: "string \<Rightarrow> string" where
  "replace_tilde0 (a # b # xs) =
     (if a = CHR ''~'' \<and> b = CHR ''0'' then CHR ''~'' # replace_tilde0 xs
      else a # replace_tilde0 (b # xs))"
| "replace_tilde0 xs = xs"

definition decodePointerSegment :: "string \<Rightarrow> string" where
  "decodePointerSegment seg = replace_tilde0 (replace_tilde1 seg)"

text \<open>
  The values a pointer can reach. The document is what \<open>JSON.parse\<close> produces:
  an object is the list of its own entries in enumeration order, with pairwise
  different keys; numbers are restricted to integers. Member access also reaches
  values that are no JSON data, the functions and prototype objects of the host: they
  are the values \<open>Host h\<close>, of a type \<open>'h\<close> that the model leaves open.
  \<open>None\<close> of type \<^typ>\<open>'a option\<close> is JavaScript's \<open>undefined\<close>.
\<close>

datatype 'h json =
    JNull
  | JBool bool
  | JNum int
  | JStr string
  | JArr "'h json list"
  | JObj "(string \<times> 'h json) list"
  | Host 'h

text \<open>Canonical array indices: \<open>"0"\<close>, or decimal digits without a leading zero.\<close>

definition digit_val :: "char \<Rightarrow> nat option" where
  "digit_val c =
     (let n = (of_char c :: nat) in if 48 \<le> n \<and> n \<le> 57 then Some (n - 48) else None)"

fun digits_val :: "nat \<Rightarrow> string \<Rightarrow> nat option" where
  "digits_val acc [] = Some acc"
| "digits_val acc (c # cs) =
     (case digit_val c of None \<Rightarrow> None | Some d \<Rightarrow> digits_val (10 * acc + d) cs)"

definition array_index :: "string \<Rightarrow> nat option" where
  "array_index p =
     (case p of
        [] \<Rightarrow> None
      | c # cs \<Rightarrow> if c = CHR ''0'' \<and> cs \<noteq> [] then None else digits_val 0 p)"

text \<open>
  The own members of a JSON value: the entries of an object, the elements and the
  length of an array, the code units and the length of a string.
\<close>

fun own :: "'h json \<Rightarrow> string \<Rightarrow> 'h json option" where
  "own (JObj kvs) p = map_of kvs p"
| "own (JArr xs) p =
     (if p = ''length'' then Some (JNum (int (length xs)))
      else (case array_index p of
              Some i \<Rightarrow> if i < length xs then Some (xs ! i) else None
            | None \<Rightarrow> None))"
| "own (JStr s) p =
     (if p = ''length'' then Some (JNum (int (length s)))
      else (case array_index p of
              Some i \<Rightarrow> if i < length s then Some (JStr [s ! i]) else None
            | None \<Rightarrow> None))"
| "own v p = None"

text \<open>
  An accessor of the host may throw instead of giving a value.
\<close>

datatype error = Thrown

text \<open>
  The host: what member access finds on a value under a name that is no own member
  of it above. For a JSON value these are the members it inherits along its prototype
  chain (\<open>constructor\<close>, \<open>toString\<close>, ...), for a host value all its members.
  The host is not part of the repository; it is a parameter of the resolver.
\<close>

type_synonym 'h host = "'h json \<Rightarrow> string \<Rightarrow> error + 'h json option"

text \<open>
  The member access \<open>cur[p]\<close> on a value that is neither \<open>null\<close> nor
  \<open>undefined\<close>: an own member hides an inherited one.
\<close>

definition member :: "'h host \<Rightarrow> 'h json \<Rightarrow> string \<Rightarrow> error + 'h json option" where
  "member host v p = (case own v p of Some x \<Rightarrow> Inr (Some x) | None \<Rightarrow> host v p)"

section \<open>Pointer Resolver (\<open>resolve.ts\<close>)\<close>

text \<open>
  The loop of \<open>getByJsonPointer\<close>: \<open>cur\<close> is the current value (\<open>None\<close> for
  \<open>undefined\<close>); \<open>cur == null\<close> holds for \<open>undefined\<close> and for \<open>null\<close>.
  What an accessor throws leaves the function.
\<close>

fun pointer_loop :: "'h host \<Rightarrow> 'h json option \<Rightarrow> string list \<Rightarrow> error + 'h json option" where
  "pointer_loop host cur [] = Inr cur"
| "pointer_loop host cur (p # parts) =
     (case cur of
        None \<Rightarrow> Inr None
      | Some JNull \<Rightarrow> Inr None
      | Some v \<Rightarrow>
          (case member host v p of
             Inl e \<Rightarrow> Inl e
           | Inr next \<Rightarrow> pointer_loop host next parts))"

definition getByJsonPointer :: "'h host \<Rightarrow> 'h json \<Rightarrow> string \<Rightarrow> error + 'h json option" where
  "getByJsonPointer host doc pointer =
     (if \<not> startsWith pointer ''#/'' then Inr None
      else pointer_loop host (Some doc)
             (map decodePointerSegment (split_on CHR ''/'' (drop 2 pointer))))"

text \<open>\<open>resolveRef\<close> of \<open>resolve.ts\<close>; the cast to \<open>T\<close> has no effect at run time.\<close>

definition resolveRef_pointer :: "'h host \<Rightarrow> 'h json \<Rightarrow> string \<Rightarrow> error + 'h json option" where
  "resolveRef_pointer host doc r =
     (if \<not> startsWith r ''#/'' then Inr None else getByJsonPointer host doc r)"

section \<open>Schema nodes and the document\<close>

text \<open>
  \<open>EnumValue = string | number | boolean | null\<close>. Numeric values are restricted to
  the integers that a number holds exactly, from \<open>-(2^53 - 1)\<close> to \<open>2^53 - 1\<close>:
  for these \<open>String\<close> prints the decimal digits.
\<close>

typedef safe_integer = "{i :: int. \<bar>i\<bar> \<le> 9007199254740991}"
  by (rule exI[of _ 0]) simp

datatype enum_value = EString string | ENumber safe_integer | EBoolean bool | ENull

text \<open>
  \<open>OpenApiSchemaExt\<close>, with the fields the index builder reads. Every field is
  optional (\<open>None\<close> is \<open>undefined\<close>). \<open>properties\<close> lists the entries in the order
  \<open>Object.entries\<close> yields them, with pairwise different names.
\<close>

datatype schema = Schema
  (ref: "string option")
  (description: "string option")
  (type: "string option")
  (enum_values: "enum_value list option")
  (properties: "(string \<times> schema) list option")
  (required: "string list option")
  (items: "schema option")
  (additionalProperties: "(bool + schema) option")
  (oneOf: "schema list option")
  (anyOf: "schema list option")
  (allOf: "schema list option")
  (x_inlineable: "bool option")
  (x_unionTitle: "string option")
  (x_enumDescriptions: "(string \<times> string) list option")

record components =
  schemas :: "(string \<times> schema) list option"

record OpenApiDocument =
  components :: "components option"

text \<open>Truthiness of an optional string: defined and not empty.\<close>

definition truthy :: "string option \<Rightarrow> bool" where
  "truthy s = (case s of None \<Rightarrow> False | Some x \<Rightarrow> x \<noteq> [])"

definition text_of :: "string option \<Rightarrow> string" where
  "text_of s = (case s of None \<Rightarrow> [] | Some x \<Rightarrow> x)"

text \<open>Truthiness of \<open>additionalProperties\<close>: \<open>true\<close> or a schema.\<close>

definition truthy_additional :: "(bool + schema) option \<Rightarrow> bool" where
  "truthy_additional a = (case a of None \<Rightarrow> False | Some (Inl b) \<Rightarrow> b | Some (Inr _) \<Rightarrow> True)"

text \<open>\<open>a || b\<close> on optional arrays: an array, even an empty one, is truthy.\<close>

definition orElse :: "'a option \<Rightarrow> 'a option \<Rightarrow> 'a option" where
  "orElse a b = (case a of Some x \<Rightarrow> Some x | None \<Rightarrow> b)"

text \<open>\<open>xs?.[i]\<close>.\<close>

definition nth_opt :: "'a list \<Rightarrow> nat \<Rightarrow> 'a option" where
  "nth_opt xs i = (if i < length xs then Some (xs ! i) else None)"

subsection \<open>Calls that may not return\<close>

text \<open>
  Most functions of the classifier follow references through the document and recurse
  without a guard, so a call may exhaust the stack. Such a function returns an
  \<open>option\<close>: \<open>None\<close> means that the call does not return a value. The combinators
  below run the body of a loop over a list in order, and do not return as soon as one
  iteration does not.
\<close>

text \<open>\<open>xs.map(f)\<close>.\<close>

fun mapM :: "('a \<Rightarrow> 'b option) \<Rightarrow> 'a list \<Rightarrow> 'b list option" where
  "mapM f [] = Some []"
| "mapM f (x # xs) = Option.bind (f x) (\<lambda>y. Option.bind (mapM f xs) (\<lambda>ys. Some (y # ys)))"

text \<open>\<open>xs.some(f)\<close>: stops at the first \<open>true\<close>.\<close>

fun someM :: "('a \<Rightarrow> bool option) \<Rightarrow> 'a list \<Rightarrow> bool option" where
  "someM f [] = Some False"
| "someM f (x # xs) = Option.bind (f x) (\<lambda>b. if b then Some True else someM f xs)"

text \<open>\<open>for (const x of xs) { const r = f(x); if (ok(r)) return r; }\<close>.\<close>

fun firstM :: "('a \<Rightarrow> 'b option) \<Rightarrow> ('b \<Rightarrow> bool) \<Rightarrow> 'a list \<Rightarrow> 'b option option" where
  "firstM f ok [] = Some None"
| "firstM f ok (x # xs) =
     Option.bind (f x) (\<lambda>r. if ok r then Some (Some r) else firstM f ok xs)"

text \<open>\<open>for (const x of xs) { state = f(x, state); }\<close>.\<close>

fun foldM :: "('a \<Rightarrow> 's \<Rightarrow> 's option) \<Rightarrow> 'a list \<Rightarrow> 's \<Rightarrow> 's option" where
  "foldM f [] s = Some s"
| "foldM f (x # xs) s = Option.bind (f x s) (\<lambda>s'. foldM f xs s')"

lemma mapM_mono [partial_function_mono]:
  assumes "\<And>x. mono_option (\<lambda>f. F f x)"
  shows "mono_option (\<lambda>f. mapM (F f) xs)"
  by (induction xs) (auto intro!: partial_function_mono assms)

lemma someM_mono [partial_function_mono]:
  assumes "\<And>x. mono_option (\<lambda>f. F f x)"
  shows "mono_option (\<lambda>f. someM (F f) xs)"
  by (induction xs) (auto intro!: partial_function_mono assms)

lemma firstM_mono [partial_function_mono]:
  assumes "\<And>x. mono_option (\<lambda>f. F f x)"
  shows "mono_option (\<lambda>f. firstM (F f) ok xs)"
  by (induction xs) (auto intro!: partial_function_mono assms)

lemma foldM_mono [partial_function_mono]:
  assumes "\<And>x s. mono_option (\<lambda>f. F f x s)"
  shows "mono_option (\<lambda>f. foldM (F f) xs s)"
  by (induction xs arbitrary: s) (auto intro!: partial_function_mono assms)

section \<open>Schema Classifier\<close>

text \<open>
  The object of the named schemas comes from \<open>JSON.parse\<close>, so the member access
  \<open>schemas[refName]\<close> also finds what every object inherits from
  \<open>Object.prototype\<close>. These are the names ECMAScript gives it. What is found
  under them is a function, or the prototype itself for \<open>__proto__\<close>: an object
  with none of the fields of a schema, which the classifier reads as the schema
  without fields.
\<close>

definition Object_prototype_names :: "string list" where
  "Object_prototype_names =
     [''constructor'', ''__defineGetter__'', ''__defineSetter__'', ''hasOwnProperty'',
      ''__lookupGetter__'', ''__lookupSetter__'', ''isPrototypeOf'', ''propertyIsEnumerable'',
      ''toString'', ''valueOf'', ''__proto__'', ''toLocaleString'']"

definition inherited_member :: schema where
  "inherited_member = Schema None None None None None None None None None None None None None None"

definition getSchemaFromRef :: "OpenApiDocument \<Rightarrow> string \<Rightarrow> schema option" where
  "getSchemaFromRef doc r =
     (let refName = last (split_on CHR ''/'' r) in
      if refName = [] then None
      else (case components doc of
              None \<Rightarrow> None
            | Some c \<Rightarrow>
                (case schemas c of
                   None \<Rightarrow> None
                 | Some ss \<Rightarrow>
                     (case map_of ss refName of
                        Some t \<Rightarrow> Some t
                      | None \<Rightarrow>
                          if refName \<in> set Object_prototype_names then Some inherited_member
                          else None))))"

definition resolveRef :: "OpenApiDocument \<Rightarrow> schema option \<Rightarrow> schema option" where
  "resolveRef doc schema =
     (case schema of
        None \<Rightarrow> None
      | Some s \<Rightarrow>
          if \<not> truthy (ref s) then Some s
          else (case getSchemaFromRef doc (text_of (ref s)) of
                  Some t \<Rightarrow> Some t
                | None \<Rightarrow> Some s))"

definition getRefName :: "schema option \<Rightarrow> string option" where
  "getRefName schema =
     (case schema of
        None \<Rightarrow> None
      | Some s \<Rightarrow> (case ref s of None \<Rightarrow> None | Some r \<Rightarrow> Some (last (split_on CHR ''/'' r))))"

text \<open>
  \<open>resolved !== schema\<close> compares object identities. The resolved node is the named
  schema of the document, so it is the node itself only when the node is that named
  schema (or when nothing was found). The model compares the values: where the two
  are equal as values but different objects, the source recurses once into the named
  schema, finds it identical to itself there, and continues as the model does here.
\<close>

partial_function (option) getDescription :: "OpenApiDocument \<Rightarrow> schema option \<Rightarrow> string option" where
  "getDescription doc schema =
     (case schema of
        None \<Rightarrow> Some []
      | Some s \<Rightarrow>
          if truthy (description s) then Some (text_of (description s))
          else if truthy (case allOf s of None \<Rightarrow> None
                          | Some bs \<Rightarrow> (case nth_opt bs 1 of None \<Rightarrow> None | Some b \<Rightarrow> description b))
          then Some (text_of (case allOf s of None \<Rightarrow> None
                          | Some bs \<Rightarrow> (case nth_opt bs 1 of None \<Rightarrow> None | Some b \<Rightarrow> description b)))
          else if truthy (ref s) \<and> resolveRef doc (Some s) \<noteq> Some s
          then getDescription doc (resolveRef doc (Some s))
          else (case orElse (anyOf s) (orElse (oneOf s) (allOf s)) of
                  Some variants \<Rightarrow>
                    Option.bind (firstM (\<lambda>item. getDescription doc (Some item)) (\<lambda>d. d \<noteq> []) variants)
                      (\<lambda>r. Some (text_of r))
                | None \<Rightarrow> Some []))"

function getTypeLabel :: "OpenApiDocument \<Rightarrow> schema option \<Rightarrow> string" where
  "getTypeLabel doc None = ''unknown''"
| "getTypeLabel doc (Some s) =
     (if truthy (ref s)
      then (if truthy (getRefName (Some s)) then text_of (getRefName (Some s)) else ''unknown'')
      else if properties s \<noteq> None \<or> truthy_additional (additionalProperties s) then ''object''
      else if items s \<noteq> None then getTypeLabel doc (items s)
      else if truthy (type s) then text_of (type s)
      else (case (case allOf s of None \<Rightarrow> None | Some bs \<Rightarrow> find (\<lambda>item. truthy (ref item)) bs) of
              Some refItem \<Rightarrow>
                (if truthy (getRefName (Some refItem)) then text_of (getRefName (Some refItem))
                 else ''object'')
            | None \<Rightarrow>
                (case anyOf s of
                   Some bs \<Rightarrow>
                     (let l = getTypeLabel doc (find (\<lambda>item. type item \<noteq> Some ''null'') bs)
                      in if l \<noteq> [] then l else ''unknown'')
                 | None \<Rightarrow>
                     (case oneOf s of
                        Some bs \<Rightarrow>
                          (let l = getTypeLabel doc (nth_opt bs 0)
                           in if l \<noteq> [] then l else ''unknown'')
                      | None \<Rightarrow> ''unknown''))))"
  by pat_completeness auto

termination
proof (relation "measure (\<lambda>(doc, so). size_option size so)")
  show "wf (measure (\<lambda>(doc, so). size_option size so))" by simp
next
  fix doc :: OpenApiDocument and s :: schema
  show "((doc, items s), (doc, Some s)) \<in> measure (\<lambda>(doc, so). size_option size so)"
    by (cases s; cases "items s") auto
next
  fix doc :: OpenApiDocument and s :: schema and bs :: "schema list"
  assume a: "anyOf s = Some bs"
  show "((doc, find (\<lambda>item. type item \<noteq> Some ''null'') bs), (doc, Some s))
          \<in> measure (\<lambda>(doc, so). size_option size so)"
  proof (cases "find (\<lambda>item. type item \<noteq> Some ''null'') bs")
    case None
    then show ?thesis by (cases s) simp
  next
    case (Some b)
    then have "b \<in> set bs" by (auto simp: find_Some_iff)
    then have "size b < Suc (size_list size bs)"
      by (simp add: less_Suc_eq_le size_list_estimation')
    with a Some show ?thesis by (cases s) auto
  qed
next
  fix doc :: OpenApiDocument and s :: schema and bs :: "schema list"
  assume a: "oneOf s = Some bs"
  show "((doc, nth_opt bs 0), (doc, Some s)) \<in> measure (\<lambda>(doc, so). size_option size so)"
  proof (cases bs)
    case Nil
    then show ?thesis by (cases s) (simp add: nth_opt_def)
  next
    case (Cons b bs')
    with a show ?thesis by (cases s) (auto simp: nth_opt_def)
  qed
qed

partial_function (option) getUnionVariants :: "OpenApiDocument \<Rightarrow> schema option \<Rightarrow> schema list option" where
  "getUnionVariants doc schema =
     (case schema of
        None \<Rightarrow> Some []
      | Some s \<Rightarrow>
          if truthy (ref s) \<and> resolveRef doc (Some s) \<noteq> Some s
          then getUnionVariants doc (resolveRef doc (Some s))
          else (case orElse (anyOf s) (oneOf s) of
                  Some variants \<Rightarrow>
                    Option.bind
                      (mapM (\<lambda>item. Option.bind (getUnionVariants doc (Some item))
                                       (\<lambda>nested. Some (if nested \<noteq> [] then nested else [item])))
                         (filter (\<lambda>item. type item \<noteq> Some ''null'') variants))
                      (\<lambda>parts. Some (concat parts))
                | None \<Rightarrow> Some []))"

partial_function (option) getInlineable :: "OpenApiDocument \<Rightarrow> schema option \<Rightarrow> bool option" where
  "getInlineable doc schema =
     (case schema of
        None \<Rightarrow> Some False
      | Some s \<Rightarrow>
          if x_inlineable s = Some True then Some True
          else if truthy (ref s) then getInlineable doc (resolveRef doc (Some s))
          else (case orElse (anyOf s) (orElse (oneOf s) (allOf s)) of
                  Some variants \<Rightarrow> someM (\<lambda>item. getInlineable doc (Some item)) variants
                | None \<Rightarrow> Some False))"

partial_function (option) getUnionTitle :: "OpenApiDocument \<Rightarrow> schema option \<Rightarrow> string option option" where
  "getUnionTitle doc schema =
     (case schema of
        None \<Rightarrow> Some None
      | Some s \<Rightarrow>
          if truthy (x_unionTitle s) then Some (x_unionTitle s)
          else if truthy (ref s) then getUnionTitle doc (resolveRef doc (Some s))
          else (case orElse (anyOf s) (oneOf s) of
                  Some variants \<Rightarrow>
                    Option.bind
                      (firstM (\<lambda>item. getUnionTitle doc (Some item)) truthy
                         (filter (\<lambda>item. type item \<noteq> Some ''null'') variants))
                      (\<lambda>r. Some (case r of None \<Rightarrow> None | Some t \<Rightarrow> t))
                | None \<Rightarrow> Some None))"

text \<open>
  The three loops of \<open>getSchemaProperties\<close> and \<open>getSchemaRequired\<close>, over
  \<open>allOf\<close>, \<open>anyOf\<close> and \<open>oneOf\<close> in this order, each over a list that may be absent.
\<close>

definition found :: "'a option option \<Rightarrow> 'a option" where
  "found r = (case r of None \<Rightarrow> None | Some x \<Rightarrow> x)"

partial_function (option) getSchemaProperties ::
  "OpenApiDocument \<Rightarrow> schema option \<Rightarrow> (string \<times> schema) list option option" where
  "getSchemaProperties doc schema =
     (case schema of
        None \<Rightarrow> Some None
      | Some s \<Rightarrow>
          if truthy (ref s) then getSchemaProperties doc (resolveRef doc (Some s))
          else if type s = Some ''object'' \<and> properties s \<noteq> None then Some (properties s)
          else if type s = Some ''array'' \<and> items s \<noteq> None then getSchemaProperties doc (items s)
          else
            Option.bind
              (case allOf s of None \<Rightarrow> Some None
               | Some bs \<Rightarrow> firstM (\<lambda>item. getSchemaProperties doc (Some item)) (\<lambda>p. p \<noteq> None) bs)
              (\<lambda>r1. if r1 \<noteq> None then Some (found r1) else
                Option.bind
                  (case anyOf s of None \<Rightarrow> Some None
                   | Some bs \<Rightarrow> firstM (\<lambda>item. getSchemaProperties doc (Some item)) (\<lambda>p. p \<noteq> None) bs)
                  (\<lambda>r2. if r2 \<noteq> None then Some (found r2) else
                    Option.bind
                      (case oneOf s of None \<Rightarrow> Some None
                       | Some bs \<Rightarrow> firstM (\<lambda>item. getSchemaProperties doc (Some item)) (\<lambda>p. p \<noteq> None) bs)
                      (\<lambda>r3. Some (found r3)))))"

partial_function (option) getSchemaRequired :: "OpenApiDocument \<Rightarrow> schema option \<Rightarrow> string list option" where
  "getSchemaRequired doc schema =
     (case schema of
        None \<Rightarrow> Some []
      | Some s \<Rightarrow>
          if truthy (ref s) then getSchemaRequired doc (resolveRef doc (Some s))
          else if type s = Some ''object''
          then Some (case required s of None \<Rightarrow> [] | Some r \<Rightarrow> r)
          else if type s = Some ''array'' \<and> items s \<noteq> None then getSchemaRequired doc (items s)
          else
            Option.bind
              (case allOf s of None \<Rightarrow> Some None
               | Some bs \<Rightarrow> firstM (\<lambda>item. getSchemaRequired doc (Some item)) (\<lambda>r. r \<noteq> []) bs)
              (\<lambda>r1. case r1 of Some r \<Rightarrow> Some r | None \<Rightarrow>
                Option.bind
                  (case anyOf s of None \<Rightarrow> Some None
                   | Some bs \<Rightarrow> firstM (\<lambda>item. getSchemaRequired doc (Some item)) (\<lambda>r. r \<noteq> []) bs)
                  (\<lambda>r2. case r2 of Some r \<Rightarrow> Some r | None \<Rightarrow>
                    Option.bind
                      (case oneOf s of None \<Rightarrow> Some None
                       | Some bs \<Rightarrow> firstM (\<lambda>item. getSchemaRequired doc (Some item)) (\<lambda>r. r \<noteq> []) bs)
                      (\<lambda>r3. Some (case r3 of Some r \<Rightarrow> r | None \<Rightarrow> [])))))"

definition PRIMITIVE_TYPES :: "string set" where
  "PRIMITIVE_TYPES = {''string'', ''number'', ''integer'', ''boolean'', ''null''}"

partial_function (option) isSchemaComplex :: "OpenApiDocument \<Rightarrow> schema option \<Rightarrow> bool option" where
  "isSchemaComplex doc schema =
     (case schema of
        None \<Rightarrow> Some False
      | Some s \<Rightarrow>
          if truthy (ref s) then isSchemaComplex doc (resolveRef doc (Some s))
          else if anyOf s \<noteq> None \<or> oneOf s \<noteq> None \<or> allOf s \<noteq> None then Some True
          else if type s = Some ''array'' then isSchemaComplex doc (items s)
          else if type s = Some ''object'' then Some True
          else if properties s \<noteq> None then Some True
          else if truthy (type s) \<and> text_of (type s) \<in> PRIMITIVE_TYPES then Some False
          else Some (items s \<noteq> None))"

partial_function (option) isArraySchema :: "OpenApiDocument \<Rightarrow> schema option \<Rightarrow> bool option" where
  "isArraySchema doc schema =
     (case schema of
        None \<Rightarrow> Some False
      | Some s \<Rightarrow>
          if truthy (ref s) then isArraySchema doc (resolveRef doc (Some s))
          else if type s = Some ''array'' \<or> items s \<noteq> None then Some True
          else (case orElse (anyOf s) (orElse (oneOf s) (allOf s)) of
                  Some variants \<Rightarrow> someM (\<lambda>item. isArraySchema doc (Some item)) variants
                | None \<Rightarrow> Some False))"

text \<open>
  The inner loop of \<open>getEnumValues\<close>:
  \<open>for (const value of itemValues) if (!values.includes(value)) values.push(value)\<close>.
\<close>

definition pushNew :: "'a list \<Rightarrow> 'a list \<Rightarrow> 'a list" where
  "pushNew itemValues values =
     fold (\<lambda>value vs. if value \<in> set vs then vs else vs @ [value]) itemValues values"

partial_function (option) getEnumValues :: "OpenApiDocument \<Rightarrow> schema option \<Rightarrow> enum_value list option" where
  "getEnumValues doc schema =
     (case schema of
        None \<Rightarrow> Some []
      | Some s \<Rightarrow>
          if truthy (ref s) then getEnumValues doc (resolveRef doc (Some s))
          else if type s = Some ''array'' \<and> items s \<noteq> None then getEnumValues doc (items s)
          else (case enum_values s of
                  Some vs \<Rightarrow> Some vs
                | None \<Rightarrow>
                    (case orElse (anyOf s) (orElse (oneOf s) (allOf s)) of
                       Some variants \<Rightarrow>
                         foldM (\<lambda>item values.
                                  Option.bind (getEnumValues doc (Some item))
                                    (\<lambda>itemValues. Some (pushNew itemValues values)))
                           variants []
                     | None \<Rightarrow> Some [])))"

type_synonym EnumDescriptions = "(string \<times> string) list"

partial_function (option) getEnumDescriptions :: "OpenApiDocument \<Rightarrow> schema option \<Rightarrow> EnumDescriptions option" where
  "getEnumDescriptions doc schema =
     (case schema of
        None \<Rightarrow> Some []
      | Some s \<Rightarrow>
          if truthy (ref s) then getEnumDescriptions doc (resolveRef doc (Some s))
          else if type s = Some ''array'' \<and> items s \<noteq> None then getEnumDescriptions doc (items s)
          else (case x_enumDescriptions s of
                  Some d \<Rightarrow> Some d
                | None \<Rightarrow>
                    (case orElse (anyOf s) (orElse (oneOf s) (allOf s)) of
                       Some variants \<Rightarrow>
                         Option.bind
                           (firstM (\<lambda>item. getEnumDescriptions doc (Some item)) (\<lambda>d. d \<noteq> []) variants)
                           (\<lambda>r. Some (case r of None \<Rightarrow> [] | Some d \<Rightarrow> d))
                     | None \<Rightarrow> Some [])))"

section \<open>Rows, variants and sections\<close>

datatype SectionKind = Kind_enum | Kind_union | Kind_object

fun kind_text :: "SectionKind \<Rightarrow> string" where
  "kind_text Kind_enum = ''enum''"
| "kind_text Kind_union = ''union''"
| "kind_text Kind_object = ''object''"

text \<open>\<open>ParameterUnionVariant\<close>; \<open>UnionVariantLink\<close> has the same fields.\<close>

datatype ParameterUnionVariant = ParameterUnionVariant
  (label: string)
  (array: bool)
  (sectionId: "string option")
  (typeClass: string)
  (groupVariants: "ParameterUnionVariant list option")

type_synonym UnionVariantLink = ParameterUnionVariant

record InlineRow =
  row_name :: string
  row_type :: string
  row_description :: string
  row_array :: bool
  row_required :: bool
  row_enumValues :: "enum_value list"
  row_enumDescriptions :: EnumDescriptions
  row_literalValue :: "string option"
  row_unionVariants :: "ParameterUnionVariant list"

record ParameterRow =
  param_name :: string
  param_typeLabel :: string
  param_typeClass :: string
  param_description :: string
  param_required :: bool
  param_array :: bool
  param_enumValues :: "enum_value list"
  param_enumDescriptions :: EnumDescriptions
  param_literalValue :: "string option"
  param_inlineable :: bool
  param_inlineRows :: "InlineRow list"
  param_isUnion :: bool
  param_unionVariants :: "ParameterUnionVariant list"
  param_typeLinkId :: "string option"

record EnumSection =
  enum_kind :: SectionKind
  enum_id :: string
  enum_name :: string
  enum_title :: string
  enum_description :: string
  enum_section_values :: "enum_value list"
  enum_descriptions :: EnumDescriptions

record ObjectSection =
  object_kind :: SectionKind
  object_id :: string
  object_name :: string
  object_title :: string
  object_description :: string
  object_rows :: "InlineRow list"

record UnionSection =
  union_kind :: SectionKind
  union_id :: string
  union_name :: string
  union_title :: string
  union_description :: string
  union_variants :: "UnionVariantLink list"

record SectionRef =
  ref_id :: string
  ref_kind :: SectionKind

text \<open>
  \<open>byName\<close> is a \<open>Map\<close>: the list of its entries in insertion order, with pairwise
  different keys.
\<close>

record ReferenceSections =
  enums :: "EnumSection list"
  objects :: "ObjectSection list"
  unions :: "UnionSection list"
  byName :: "(string \<times> SectionRef) list"

record ReferenceIndex =
  parameterRows :: "ParameterRow list"
  sections :: ReferenceSections

record UnionVariantEntry =
  entry_schema :: schema
  entry_array :: bool
  labelOverride :: "string option"
  typeClassOverride :: "string option"
  entry_groupVariants :: "ParameterUnionVariant list option"

record SectionEntry =
  se_name :: string
  se_schema :: schema
  se_kind :: SectionKind
  se_id :: string

text \<open>\<open>String(value)\<close> for an enum value.\<close>

fun digits_of :: "nat \<Rightarrow> string" where
  "digits_of n =
     (if n < 10 then [char_of (48 + n)] else digits_of (n div 10) @ [char_of (48 + n mod 10)])"

fun String :: "enum_value \<Rightarrow> string" where
  "String (EString s) = s"
| "String (ENumber n) =
     (let i = Rep_safe_integer n in
      if i < 0 then CHR ''-'' # digits_of (nat (- i)) else digits_of (nat i))"
| "String (EBoolean b) = (if b then ''true'' else ''false'')"
| "String ENull = ''null''"

text \<open>
  \<open>xs.sort((a, b) => key(a).localeCompare(key(b)))\<close>. The collation is the host's;
  it is a parameter \<open>lc\<close>, negative, zero or positive. The sort is stable.
\<close>

fun insertBy :: "('a \<Rightarrow> 'a \<Rightarrow> int) \<Rightarrow> 'a \<Rightarrow> 'a list \<Rightarrow> 'a list" where
  "insertBy cmp x [] = [x]"
| "insertBy cmp x (y # ys) = (if cmp x y \<le> 0 then x # y # ys else y # insertBy cmp x ys)"

fun sortBy :: "('a \<Rightarrow> 'a \<Rightarrow> int) \<Rightarrow> 'a list \<Rightarrow> 'a list" where
  "sortBy cmp [] = []"
| "sortBy cmp (x # xs) = insertBy cmp x (sortBy cmp xs)"

section \<open>Index builder\<close>

function getRefNameDeep :: "schema option \<Rightarrow> string option" where
  "getRefNameDeep None = None"
| "getRefNameDeep (Some s) =
     (if truthy (ref s) then getRefName (Some s)
      else if type s = Some ''array'' \<and> items s \<noteq> None then getRefNameDeep (items s)
      else (case allOf s of
              Some bs \<Rightarrow>
                (case filter truthy (map (\<lambda>item. getRefNameDeep (Some item)) bs) of
                   [] \<Rightarrow> None
                 | r # _ \<Rightarrow> r)
            | None \<Rightarrow> None))"
  by pat_completeness auto
termination
proof (relation "measure (size_option size)")
  show "wf (measure (size_option size))" by simp
next
  fix s :: schema
  show "(items s, Some s) \<in> measure (size_option size)"
    by (cases s; cases "items s") auto
next
  fix s :: schema and bs :: "schema list" and item :: schema
  assume a: "allOf s = Some bs" "item \<in> set bs"
  then have "size item < Suc (size_list size bs)"
    by (simp add: less_Suc_eq_le size_list_estimation')
  with a show "(Some item, Some s) \<in> measure (size_option size)"
    by (cases s) auto
qed

partial_function (option) getSchemaKind :: "OpenApiDocument \<Rightarrow> schema option \<Rightarrow> SectionKind option option" where
  "getSchemaKind doc schema =
     (case schema of
        None \<Rightarrow> Some None
      | Some s \<Rightarrow>
          if truthy (ref s) then getSchemaKind doc (resolveRef doc (Some s))
          else if anyOf s \<noteq> None \<or> oneOf s \<noteq> None then Some (Some Kind_union)
          else
            Option.bind (getEnumValues doc (Some s))
              (\<lambda>enumValues.
                 if enumValues \<noteq> [] then Some (Some Kind_enum)
                 else if type s = Some ''object'' \<or> properties s \<noteq> None then Some (Some Kind_object)
                 else if type s = Some ''array'' \<or> items s \<noteq> None then getSchemaKind doc (items s)
                 else Option.bind (isSchemaComplex doc (Some s))
                        (\<lambda>c. Some (if c then Some Kind_object else None))))"

definition getTypeClass :: "OpenApiDocument \<Rightarrow> schema option \<Rightarrow> string option" where
  "getTypeClass doc schema =
     (case schema of
        None \<Rightarrow> Some ''object''
      | Some s \<Rightarrow>
          Option.bind (getEnumValues doc (Some s))
            (\<lambda>enumValues.
               if enumValues \<noteq> [] then Some ''enum''
               else (let label = getTypeLabel doc (Some s) in
                     if label = ''string'' then Some ''string''
                     else if label = ''boolean'' then Some ''boolean''
                     else if label = ''number'' \<or> label = ''integer'' then Some label
                     else Some ''object'')))"

definition getVariantLabel :: "OpenApiDocument \<Rightarrow> schema \<Rightarrow> string option" where
  "getVariantLabel doc variant =
     (let refName = getRefNameDeep (Some variant) in
      Option.bind (getEnumValues doc (Some variant))
        (\<lambda>enumValues.
           if truthy refName then Some (text_of refName)
           else (case enumValues of
                   [v] \<Rightarrow> Some (''\"'' @ String v @ ''\"'')
                 | _ # _ # _ \<Rightarrow> Some ''enum''
                 | [] \<Rightarrow> Some (getTypeLabel doc (Some variant)))))"

text \<open>\<open>refName ? (sections.byName.get(refName)?.id ?? null) : null\<close>.\<close>

definition sectionIdOf :: "(string \<times> SectionRef) list \<Rightarrow> string option \<Rightarrow> string option" where
  "sectionIdOf names refName =
     (if truthy refName then map_option ref_id (map_of names (text_of refName)) else None)"

definition expandUnionVariantEntries ::
  "OpenApiDocument \<Rightarrow> schema \<Rightarrow> ReferenceSections \<Rightarrow> UnionVariantEntry list option" where
  "expandUnionVariantEntries doc schema secs =
     (let resolved = (case resolveRef doc (Some schema) of Some r \<Rightarrow> r | None \<Rightarrow> schema) in
      if type resolved = Some ''array'' \<and> items resolved \<noteq> None
      then
        Option.bind (getUnionVariants doc (items resolved))
          (\<lambda>itemVariants.
             if itemVariants \<noteq> []
             then
               Option.bind
                 (mapM (\<lambda>variant.
                          Option.bind (getVariantLabel doc variant) (\<lambda>l.
                          Option.bind (getTypeClass doc (Some variant)) (\<lambda>tc.
                            Some (ParameterUnionVariant l False
                                    (sectionIdOf (byName secs) (getRefNameDeep (Some variant)))
                                    tc None))))
                    itemVariants)
                 (\<lambda>gvs. Some [\<lparr>entry_schema = schema, entry_array = False,
                                labelOverride = Some ''array of'',
                                typeClassOverride = Some ''object'',
                                entry_groupVariants = Some gvs\<rparr>])
             else Some [\<lparr>entry_schema = schema, entry_array = True, labelOverride = None,
                         typeClassOverride = None, entry_groupVariants = None\<rparr>])
      else
        Option.bind (isArraySchema doc (Some schema))
          (\<lambda>a. Some [\<lparr>entry_schema = schema, entry_array = a, labelOverride = None,
                       typeClassOverride = None, entry_groupVariants = None\<rparr>]))"

text \<open>
  The callback that turns an entry into a variant, the same in \<open>buildUnionVariants\<close>
  and in the union branch of \<open>buildSectionsFromRefs\<close>.
\<close>

definition variantOfEntry ::
  "OpenApiDocument \<Rightarrow> (string \<times> SectionRef) list \<Rightarrow> UnionVariantEntry \<Rightarrow> ParameterUnionVariant option" where
  "variantOfEntry doc names e =
     (let variant = entry_schema e;
          sid = sectionIdOf names (getRefNameDeep (Some variant)) in
      Option.bind (case labelOverride e of Some l \<Rightarrow> Some l | None \<Rightarrow> getVariantLabel doc variant)
        (\<lambda>l.
      Option.bind (case typeClassOverride e of Some t \<Rightarrow> Some t
                   | None \<Rightarrow> getTypeClass doc (Some variant))
        (\<lambda>tc. Some (ParameterUnionVariant l (entry_array e) sid tc (entry_groupVariants e)))))"

definition buildUnionVariants ::
  "OpenApiDocument \<Rightarrow> schema \<Rightarrow> ReferenceSections \<Rightarrow> ParameterUnionVariant list option" where
  "buildUnionVariants doc schema secs =
     Option.bind (getUnionVariants doc (Some schema))
       (\<lambda>variantSchemas.
     Option.bind (mapM (\<lambda>variant. expandUnionVariantEntries doc variant secs) variantSchemas)
       (\<lambda>entryLists. mapM (variantOfEntry doc (byName secs)) (concat entryLists)))"

definition literalValueOf :: "enum_value list \<Rightarrow> string option" where
  "literalValueOf enumValues = (case enumValues of [v] \<Rightarrow> Some (String v) | _ \<Rightarrow> None)"

definition buildInlineRows ::
  "OpenApiDocument \<Rightarrow> schema option \<Rightarrow> ReferenceSections \<Rightarrow> InlineRow list option" where
  "buildInlineRows doc schema secs =
     Option.bind (getSchemaProperties doc schema)
       (\<lambda>props. case props of
          None \<Rightarrow> Some []
        | Some ps \<Rightarrow>
            Option.bind (getSchemaRequired doc schema)
              (\<lambda>requiredSet.
                 mapM (\<lambda>(name, prop).
                         Option.bind (getEnumValues doc (Some prop)) (\<lambda>enumValues.
                         Option.bind (getEnumDescriptions doc (Some prop)) (\<lambda>enumDescriptions.
                         Option.bind (buildUnionVariants doc prop secs) (\<lambda>unionVariants.
                         Option.bind (getDescription doc (Some prop)) (\<lambda>d.
                         Option.bind (isArraySchema doc (Some prop)) (\<lambda>a.
                           Some \<lparr>row_name = name,
                                 row_type = (if enumValues \<noteq> [] then ''enum''
                                             else getTypeLabel doc (Some prop)),
                                 row_description = d,
                                 row_array = a,
                                 row_required = (name \<in> set requiredSet),
                                 row_enumValues = enumValues,
                                 row_enumDescriptions = enumDescriptions,
                                 row_literalValue = literalValueOf enumValues,
                                 row_unionVariants = unionVariants\<rparr>))))))
                   ps))"

text \<open>
  The accumulator is a \<open>Map\<close>, mutated in place and returned: the list of its
  entries in insertion order. The model passes it through every call.
\<close>

partial_function (option) collectRefSchemas ::
  "OpenApiDocument \<Rightarrow> schema option \<Rightarrow> (string \<times> schema) list \<Rightarrow> (string \<times> schema) list option" where
  "collectRefSchemas doc schema acc =
     (case schema of
        None \<Rightarrow> Some acc
      | Some s \<Rightarrow>
          if truthy (ref s)
          then
            (let refName = getRefName (Some s);
                 resolved = (case resolveRef doc (Some s) of Some r \<Rightarrow> r | None \<Rightarrow> s) in
             if truthy refName \<and> text_of refName \<notin> fst ` set acc
             then collectRefSchemas doc (Some resolved) (acc @ [(text_of refName, resolved)])
             else Some acc)
          else
            Option.bind
              (case properties s of
                 Some ps \<Rightarrow> foldM (\<lambda>prop a. collectRefSchemas doc (Some prop) a) (map snd ps) acc
               | None \<Rightarrow> Some acc)
              (\<lambda>acc1.
            Option.bind
              (case items s of
                 Some i \<Rightarrow> collectRefSchemas doc (Some i) acc1
               | None \<Rightarrow> Some acc1)
              (\<lambda>acc2.
            Option.bind
              (foldM (\<lambda>variant a. collectRefSchemas doc (Some variant) a)
                 (case anyOf s of Some bs \<Rightarrow> bs | None \<Rightarrow> []) acc2)
              (\<lambda>acc3.
            Option.bind
              (foldM (\<lambda>variant a. collectRefSchemas doc (Some variant) a)
                 (case oneOf s of Some bs \<Rightarrow> bs | None \<Rightarrow> []) acc3)
              (\<lambda>acc4.
              foldM (\<lambda>variant a. collectRefSchemas doc (Some variant) a)
                 (case allOf s of Some bs \<Rightarrow> bs | None \<Rightarrow> []) acc4)))))"

text \<open>The body of the first loop of \<open>buildSectionsFromRefs\<close>, on \<open>byName\<close> and \<open>sectionEntries\<close>.\<close>

definition classifyRef ::
  "OpenApiDocument \<Rightarrow> string \<times> schema \<Rightarrow> (string \<times> SectionRef) list \<times> SectionEntry list
     \<Rightarrow> ((string \<times> SectionRef) list \<times> SectionEntry list) option" where
  "classifyRef doc entry st =
     (case entry of (name, schema) \<Rightarrow> case st of (names, sectionEntries) \<Rightarrow>
        Option.bind (getInlineable doc (Some schema))
          (\<lambda>inl. if inl then Some (names, sectionEntries) else
        Option.bind (getSchemaKind doc (Some schema))
          (\<lambda>k. case k of
             None \<Rightarrow> Some (names, sectionEntries)
           | Some kind \<Rightarrow>
               (let id = kind_text kind @ ''-'' @ name in
                if name \<in> fst ` set names then Some (names, sectionEntries)
                else Some (names @ [(name, \<lparr>ref_id = id, ref_kind = kind\<rparr>)],
                           sectionEntries @ [\<lparr>se_name = name, se_schema = schema,
                                               se_kind = kind, se_id = id\<rparr>])))))"

text \<open>
  The body of the second loop. \<open>sections\<close> holds the three arrays and \<open>byName\<close>
  themselves, so the callees see what has been pushed so far; they read \<open>byName\<close> only.
\<close>

definition emitSection ::
  "(string \<Rightarrow> string \<Rightarrow> int) \<Rightarrow> OpenApiDocument \<Rightarrow> SectionEntry \<Rightarrow> ReferenceSections
     \<Rightarrow> ReferenceSections option" where
  "emitSection lc doc entry secs =
     (case se_kind entry of
        Kind_enum \<Rightarrow>
          Option.bind (getDescription doc (Some (se_schema entry))) (\<lambda>d.
          Option.bind (getEnumValues doc (Some (se_schema entry))) (\<lambda>vs.
          Option.bind (getEnumDescriptions doc (Some (se_schema entry))) (\<lambda>ds.
            Some (secs\<lparr>enums := enums secs @
                    [\<lparr>enum_kind = se_kind entry, enum_id = se_id entry,
                      enum_name = se_name entry, enum_title = se_name entry,
                      enum_description = d, enum_section_values = vs,
                      enum_descriptions = ds\<rparr>]\<rparr>))))
      | Kind_object \<Rightarrow>
          Option.bind (getDescription doc (Some (se_schema entry))) (\<lambda>d.
          Option.bind (buildInlineRows doc (Some (se_schema entry)) secs) (\<lambda>rows.
            Some (secs\<lparr>objects := objects secs @
                    [\<lparr>object_kind = se_kind entry, object_id = se_id entry,
                      object_name = se_name entry, object_title = se_name entry,
                      object_description = d, object_rows = rows\<rparr>]\<rparr>)))
      | Kind_union \<Rightarrow>
          Option.bind (getUnionTitle doc (Some (se_schema entry))) (\<lambda>t.
          Option.bind (getUnionVariants doc (Some (se_schema entry))) (\<lambda>variantSchemas.
          Option.bind (mapM (\<lambda>variant. expandUnionVariantEntries doc variant secs) variantSchemas)
            (\<lambda>entryLists.
          Option.bind (mapM (variantOfEntry doc (byName secs)) (concat entryLists)) (\<lambda>variants.
          Option.bind (getDescription doc (Some (se_schema entry))) (\<lambda>d.
            Some (secs\<lparr>unions := unions secs @
                    [\<lparr>union_kind = se_kind entry, union_id = se_id entry,
                      union_name = se_name entry,
                      union_title = (if truthy t then text_of t else se_name entry),
                      union_description = d,
                      union_variants = sortBy (\<lambda>a b. lc (label a) (label b)) variants\<rparr>]\<rparr>)))))))"

definition buildSectionsFromRefs ::
  "(string \<Rightarrow> string \<Rightarrow> int) \<Rightarrow> OpenApiDocument \<Rightarrow> (string \<times> schema) list
     \<Rightarrow> ReferenceSections option" where
  "buildSectionsFromRefs lc doc refs =
     Option.bind (foldM (classifyRef doc) refs ([], []))
       (\<lambda>(names, sectionEntries).
     Option.bind (foldM (emitSection lc doc) sectionEntries
                    \<lparr>enums = [], objects = [], unions = [], byName = names\<rparr>)
       (\<lambda>secs.
          Some \<lparr>enums = sortBy (\<lambda>a b. lc (enum_name a) (enum_name b)) (enums secs),
                objects = sortBy (\<lambda>a b. lc (object_name a) (object_name b)) (objects secs),
                unions = sortBy (\<lambda>a b. lc (union_name a) (union_name b)) (unions secs),
                byName = byName secs\<rparr>))"

definition collectRefsFromSchemas ::
  "OpenApiDocument \<Rightarrow> schema option list \<Rightarrow> (string \<times> schema) list option" where
  "collectRefsFromSchemas doc roots =
     foldM (\<lambda>schema merged.
              case schema of
                None \<Rightarrow> Some merged
              | Some s \<Rightarrow>
                  Option.bind (collectRefSchemas doc (Some s) [])
                    (\<lambda>refs. Some (fold (\<lambda>(name, refSchema) m.
                                           if name \<in> fst ` set m then m
                                           else m @ [(name, refSchema)])
                                     refs merged)))
       roots []"

definition buildParameterRows ::
  "OpenApiDocument \<Rightarrow> schema option \<Rightarrow> ReferenceSections \<Rightarrow> ParameterRow list option" where
  "buildParameterRows doc schema secs =
     (case schema of
        None \<Rightarrow> Some []
      | Some s \<Rightarrow>
          (case properties s of
             None \<Rightarrow> Some []
           | Some ps \<Rightarrow>
               (let requiredSet = (case required s of Some r \<Rightarrow> r | None \<Rightarrow> []) in
                mapM (\<lambda>(name, prop).
                        Option.bind (getEnumValues doc (Some prop)) (\<lambda>enumValues.
                        Option.bind (getEnumDescriptions doc (Some prop)) (\<lambda>enumDescriptions.
                        Option.bind (getInlineable doc (Some prop)) (\<lambda>inlineable.
                        Option.bind (buildUnionVariants doc prop secs) (\<lambda>unionVariants.
                        Option.bind (getDescription doc (Some prop)) (\<lambda>d.
                        Option.bind (isArraySchema doc (Some prop)) (\<lambda>a.
                        Option.bind (if inlineable then buildInlineRows doc (Some prop) secs
                                     else Some []) (\<lambda>inlineRows.
                          Some \<lparr>param_name = name,
                                param_typeLabel = getTypeLabel doc (Some prop),
                                param_typeClass = (if enumValues \<noteq> [] then ''enum''
                                                   else getTypeLabel doc (Some prop)),
                                param_description = d,
                                param_required = (name \<in> set requiredSet),
                                param_array = a,
                                param_enumValues = enumValues,
                                param_enumDescriptions = enumDescriptions,
                                param_literalValue = literalValueOf enumValues,
                                param_inlineable = inlineable,
                                param_inlineRows = inlineRows,
                                param_isUnion = (unionVariants \<noteq> []),
                                param_unionVariants = unionVariants,
                                param_typeLinkId =
                                  (if \<not> inlineable
                                   then sectionIdOf (byName secs) (getRefNameDeep (Some prop))
                                   else None)\<rparr>))))))))
                  ps)))"

definition buildReferenceIndex ::
  "(string \<Rightarrow> string \<Rightarrow> int) \<Rightarrow> OpenApiDocument \<Rightarrow> schema option \<Rightarrow> ReferenceIndex option" where
  "buildReferenceIndex lc doc requestSchema =
     Option.bind (collectRefsFromSchemas doc [requestSchema]) (\<lambda>refs.
     Option.bind (buildSectionsFromRefs lc doc refs) (\<lambda>secs.
     Option.bind (buildParameterRows doc requestSchema secs) (\<lambda>rows.
       Some \<lparr>parameterRows = rows, sections = secs\<rparr>)))"

definition buildReferenceSections ::
  "(string \<Rightarrow> string \<Rightarrow> int) \<Rightarrow> OpenApiDocument \<Rightarrow> schema option list \<Rightarrow> ReferenceSections option" where
  "buildReferenceSections lc doc roots =
     Option.bind (collectRefsFromSchemas doc roots) (buildSectionsFromRefs lc doc)"

section \<open>Reference definitions\<close>

text \<open>
  What the properties below compare the functions of the source with. Decoding a
  pointer segment in one pass from the left: \<open>~1\<close> is \<open>/\<close> and \<open>~0\<close> is \<open>~\<close>.
\<close>

fun unescape :: "string \<Rightarrow> string" where
  "unescape (a # b # xs) =
     (if a = CHR ''~'' \<and> b = CHR ''1'' then CHR ''/'' # unescape xs
      else if a = CHR ''~'' \<and> b = CHR ''0'' then CHR ''~'' # unescape xs
      else a # unescape (b # xs))"
| "unescape xs = xs"

text \<open>
  One field lookup: the field of that name among the own members of the value;
  nothing is found in an absent value or in \<open>null\<close>.
\<close>

definition lookup_step :: "'h json option \<Rightarrow> string \<Rightarrow> 'h json option" where
  "lookup_step cur p = (case cur of None \<Rightarrow> None | Some JNull \<Rightarrow> None | Some v \<Rightarrow> own v p)"

text \<open>
  One member access of the language, on the outcome of the accesses before it: what
  was thrown stays thrown, and nothing is found in an absent value or in \<open>null\<close>.
\<close>

definition access_step :: "'h host \<Rightarrow> error + 'h json option \<Rightarrow> string \<Rightarrow> error + 'h json option" where
  "access_step host r p =
     (case r of
        Inl e \<Rightarrow> Inl e
      | Inr None \<Rightarrow> Inr None
      | Inr (Some v) \<Rightarrow> if v = JNull then Inr None else member host v p)"

text \<open>
  A path of keys is plain from a value when no key on it names an inherited member
  where it is looked up: each key is an own member of the value reached so far, or it
  is missing there and the host gives nothing under it either.
\<close>

fun plain_path :: "'h host \<Rightarrow> 'h json option \<Rightarrow> string list \<Rightarrow> bool" where
  "plain_path host cur [] = True"
| "plain_path host cur (p # ps) =
     (case cur of
        None \<Rightarrow> True
      | Some v \<Rightarrow>
          if v = JNull then True
          else (case own v p of
                  Some x \<Rightarrow> plain_path host (Some x) ps
                | None \<Rightarrow> host v p = Inr None))"

text \<open>The pointer that addresses a path of keys: each key escaped, joined with \<open>/\<close>.\<close>

fun escape :: "string \<Rightarrow> string" where
  "escape [] = []"
| "escape (c # cs) =
     (if c = CHR ''~'' then ''~0'' @ escape cs
      else if c = CHR ''/'' then ''~1'' @ escape cs
      else c # escape cs)"

fun join_slash :: "string list \<Rightarrow> string" where
  "join_slash [] = []"
| "join_slash [s] = s"
| "join_slash (s # t # ss) = s @ CHR ''/'' # join_slash (t # ss)"

definition pointer_of :: "string list \<Rightarrow> string" where
  "pointer_of segs = ''#/'' @ join_slash (map escape segs)"

text \<open>
  A derivation by priority: the rules give their opinions in order, and the first
  opinion is the result.
\<close>

definition first_opinion :: "'a option list \<Rightarrow> 'a option" where
  "first_opinion rules = (case filter (\<lambda>r. r \<noteq> None) rules of [] \<Rightarrow> None | r # _ \<Rightarrow> r)"

definition label_rules :: "OpenApiDocument \<Rightarrow> schema \<Rightarrow> string option list" where
  "label_rules doc s =
     [ \<comment> \<open>a reference: its name, \<open>unknown\<close> when the name is empty\<close>
       if truthy (ref s)
       then Some (if truthy (getRefName (Some s)) then text_of (getRefName (Some s)) else ''unknown'')
       else None,
       \<comment> \<open>object-shaped\<close>
       if properties s \<noteq> None \<or> truthy_additional (additionalProperties s) then Some ''object'' else None,
       \<comment> \<open>array-shaped: the label of the items\<close>
       map_option (\<lambda>i. getTypeLabel doc (Some i)) (items s),
       \<comment> \<open>an explicit type\<close>
       if truthy (type s) then type s else None,
       \<comment> \<open>\<open>allOf\<close> with a reference branch: the name of the first one, \<open>object\<close> when it is empty\<close>
       map_option (\<lambda>b. if truthy (getRefName (Some b)) then text_of (getRefName (Some b)) else ''object'')
         (Option.bind (allOf s) (find (\<lambda>b. truthy (ref b)))),
       \<comment> \<open>\<open>anyOf\<close>: the label of the first branch whose type is not \<open>null\<close>\<close>
       map_option (\<lambda>bs. getTypeLabel doc (find (\<lambda>b. type b \<noteq> Some ''null'') bs)) (anyOf s),
       \<comment> \<open>\<open>oneOf\<close>: the label of the first branch\<close>
       map_option (\<lambda>bs. getTypeLabel doc (nth_opt bs 0)) (oneOf s) ]"

text \<open>A list without its repeated values, each value at its first position.\<close>

definition first_seen :: "'a list \<Rightarrow> 'a list" where
  "first_seen xs = rev (remdups (rev xs))"

text \<open>The nullable union of a schema: \<open>{anyOf: [T, {type: "null"}]}\<close>.\<close>

definition nullable :: "schema \<Rightarrow> schema" where
  "nullable T =
     Schema None None None None None None None None None
       (Some [T, Schema None None (Some ''null'') None None None None None None None None None None None])
       None None None None"

text \<open>The kind, name and id of every section of a section set, and the ids alone.\<close>

definition section_keys :: "ReferenceSections \<Rightarrow> (SectionKind \<times> string \<times> string) list" where
  "section_keys secs =
     map (\<lambda>e. (enum_kind e, enum_name e, enum_id e)) (enums secs)
     @ map (\<lambda>e. (object_kind e, object_name e, object_id e)) (objects secs)
     @ map (\<lambda>e. (union_kind e, union_name e, union_id e)) (unions secs)"

definition section_names :: "ReferenceSections \<Rightarrow> string list" where
  "section_names secs =
     map enum_name (enums secs) @ map object_name (objects secs) @ map union_name (unions secs)"

definition section_ids :: "ReferenceSections \<Rightarrow> string list" where
  "section_ids secs =
     map enum_id (enums secs) @ map object_id (objects secs) @ map union_id (unions secs)"

text \<open>The array schema \<open>{type: "array", items: i}\<close> and the union \<open>{anyOf: bs}\<close>.\<close>

definition array_of :: "schema \<Rightarrow> schema" where
  "array_of i =
     Schema None None (Some ''array'') None None None (Some i) None None None None None None None"

definition any_of :: "schema list \<Rightarrow> schema" where
  "any_of bs = Schema None None None None None None None None None (Some bs) None None None None"

definition one_of :: "schema list \<Rightarrow> schema" where
  "one_of bs = Schema None None None None None None None None (Some bs) None None None None None"

text \<open>
  The named schema of a document under a name: the own entry of that name in
  \<open>doc.components.schemas\<close>.
\<close>

definition lookup_schema :: "OpenApiDocument \<Rightarrow> string \<Rightarrow> schema option" where
  "lookup_schema doc name =
     (case components doc of
        None \<Rightarrow> None
      | Some c \<Rightarrow> (case schemas c of None \<Rightarrow> None | Some ss \<Rightarrow> map_of ss name))"

text \<open>
  A node refers to a name when it is a reference whose name, the last segment of its
  \<open>$ref\<close>, is that name and is not empty. A property of a schema refers to a name
  when the schema is no reference itself and one of its properties does.
\<close>

definition refers_to :: "schema \<Rightarrow> string \<Rightarrow> bool" where
  "refers_to c n \<longleftrightarrow> truthy (ref c) \<and> getRefName (Some c) = Some n \<and> n \<noteq> []"

definition property_refers :: "schema \<Rightarrow> string \<Rightarrow> bool" where
  "property_refers d n \<longleftrightarrow>
     \<not> truthy (ref d)
     \<and> (case properties d of None \<Rightarrow> False | Some ps \<Rightarrow> list_ex (\<lambda>(p, c). refers_to c n) ps)"

section \<open>Invariants of the loops\<close>

text \<open>
  The first loop of \<open>buildSectionsFromRefs\<close> keeps \<open>byName\<close> and
  \<open>sectionEntries\<close> in step: the same names in the same order, each once, each id
  formed from the kind and the name, and every name that of an entry of the input
  map whose schema is not inlineable.
\<close>

definition entry_ok :: "SectionEntry \<Rightarrow> bool" where
  "entry_ok e \<longleftrightarrow> se_id e = kind_text (se_kind e) @ ''-'' @ se_name e"

definition names_inv ::
  "OpenApiDocument \<Rightarrow> (string \<times> schema) list \<Rightarrow> (string \<times> SectionRef) list \<Rightarrow> SectionEntry list \<Rightarrow> bool" where
  "names_inv doc refs names es \<longleftrightarrow>
     map fst names = map se_name es
     \<and> distinct (map fst names)
     \<and> (\<forall>e\<in>set es. entry_ok e)
     \<and> (\<forall>(n, r)\<in>set names. ref_id r = kind_text (ref_kind r) @ ''-'' @ n)
     \<and> (\<forall>n\<in>fst ` set names. \<exists>s. (n, s) \<in> set refs \<and> getInlineable doc (Some s) = Some False)"

text \<open>The kind, name and id a section entry gives to its section.\<close>

definition entry_key :: "SectionEntry \<Rightarrow> SectionKind \<times> string \<times> string" where
  "entry_key e = (se_kind e, se_name e, se_id e)"

text \<open>
  What a call of \<open>collectRefSchemas\<close> adds to the accumulator: entries at the end,
  with new names, each holding the named schema of its name when the document has one,
  and each with the names its properties refer to in the accumulator that is returned.
\<close>

definition entries_ok :: "OpenApiDocument \<Rightarrow> string set \<Rightarrow> (string \<times> schema) list \<Rightarrow> bool" where
  "entries_ok doc K ext \<longleftrightarrow>
     (\<forall>(n, d)\<in>set ext.
        (\<forall>m. property_refers d m \<longrightarrow> m \<in> K)
        \<and> (\<forall>t. lookup_schema doc n = Some t \<longrightarrow> d = t))"

definition ext_ok ::
  "OpenApiDocument \<Rightarrow> (string \<times> schema) list \<Rightarrow> (string \<times> schema) list \<Rightarrow> bool" where
  "ext_ok doc acc acc' \<longleftrightarrow>
     (\<exists>ext. acc' = acc @ ext
        \<and> (distinct (map fst acc) \<longrightarrow> distinct (map fst acc'))
        \<and> entries_ok doc (fst ` set acc') ext)"

definition collect_post ::
  "OpenApiDocument \<Rightarrow> schema option \<Rightarrow> (string \<times> schema) list \<Rightarrow> (string \<times> schema) list \<Rightarrow> bool" where
  "collect_post doc so acc acc' \<longleftrightarrow>
     ext_ok doc acc acc'
     \<and> (\<forall>s n. so = Some s \<longrightarrow> refers_to s n \<or> property_refers s n \<longrightarrow> n \<in> fst ` set acc')"

text \<open>The number of named schemas of the document that are not yet in the accumulator.\<close>

definition unseen :: "OpenApiDocument \<Rightarrow> (string \<times> schema) list \<Rightarrow> nat" where
  "unseen doc acc = card (dom (lookup_schema doc) - fst ` set acc)"

section \<open>Example documents\<close>

definition ref_node :: "string \<Rightarrow> schema" where
  "ref_node r = Schema (Some r) None None None None None None None None None None None None None"

definition typed :: "string \<Rightarrow> schema" where
  "typed t = Schema None None (Some t) None None None None None None None None None None None"

definition doc_of :: "(string \<times> schema) list \<Rightarrow> OpenApiDocument" where
  "doc_of ss = \<lparr>components = Some \<lparr>schemas = Some ss\<rparr>\<rparr>"

text \<open>
  The two inherited members that the examples read, as ECMAScript defines them:
  every object inherits \<open>constructor\<close>, the function \<open>Object\<close>, and the
  \<open>name\<close> of that function is the string \<open>Object\<close>. The other members of the
  host are left out: no example reads them.
\<close>

datatype host_object = Object_function

definition host_members :: "host_object host" where
  "host_members v p =
     (case v of
        JObj kvs \<Rightarrow> if p = ''constructor'' then Inr (Some (Host Object_function)) else Inr None
      | Host Object_function \<Rightarrow> if p = ''name'' then Inr (Some (JStr ''Object'')) else Inr None
      | _ \<Rightarrow> Inr None)"

definition doc5 :: "host_object json" where
  "doc5 = JObj [(''a/b'', JObj [(''m~n'', JArr [JNum 7, JNull])]), (''c'', JNull)]"

definition allOf_only :: "schema list \<Rightarrow> schema" where
  "allOf_only bs = Schema None None None None None None None None None None (Some bs) None None None"

definition array_with_enum :: schema where
  "array_with_enum =
     Schema None None (Some ''array'') (Some [EString ''b'']) None None
       (Some (Schema None None None (Some [EString ''a'']) None None None None None None None None None None))
       None None None None None None None"

definition enum_only :: "enum_value list \<Rightarrow> schema" where
  "enum_only vs = Schema None None None (Some vs) None None None None None None None None None None"

definition object_of :: "(string \<times> schema) list \<Rightarrow> schema" where
  "object_of ps =
     Schema None None (Some ''object'') None (Some ps) None None None None None None None None None"

text \<open>A request schema that is a reference to an object schema with one property.\<close>

definition doc10 :: OpenApiDocument where
  "doc10 = doc_of [(''Req'', object_of [(''q'', typed ''string'')])]"

definition lc0 :: "string \<Rightarrow> string \<Rightarrow> int" where
  "lc0 a b = 0"

text \<open>
  The same object as a root schema of its own and as the only branch of an \<open>allOf\<close>
  wrapper, with the rows that the two builders give for its property.
\<close>

definition allOf_wrapper :: schema where
  "allOf_wrapper = allOf_only [object_of [(''q'', typed ''string'')]]"

definition q_param :: ParameterRow where
  "q_param =
     \<lparr>param_name = ''q'', param_typeLabel = ''string'', param_typeClass = ''string'',
      param_description = [], param_required = False, param_array = False,
      param_enumValues = [], param_enumDescriptions = [], param_literalValue = None,
      param_inlineable = False, param_inlineRows = [], param_isUnion = False,
      param_unionVariants = [], param_typeLinkId = None\<rparr>"

definition q_row :: InlineRow where
  "q_row =
     \<lparr>row_name = ''q'', row_type = ''string'', row_description = [], row_array = False,
      row_required = False, row_enumValues = [], row_enumDescriptions = [],
      row_literalValue = None, row_unionVariants = []\<rparr>"

text \<open>Three named schemas: an inlineable object, an object that refers to it, an enum.\<close>

definition refs1 :: "(string \<times> schema) list" where
  "refs1 =
     [(''Inl'', Schema None None (Some ''object'') None (Some [(''a'', typed ''string'')]) None None
                 None None None None (Some True) None None),
      (''Obj'', object_of [(''f'', ref_node ''#/components/schemas/Inl'')]),
      (''Color'', enum_only [EString ''red'', EString ''green''])]"

definition secs1 :: ReferenceSections where
  "secs1 =
     \<lparr>enums =
        [\<lparr>enum_kind = Kind_enum, enum_id = ''enum-Color'', enum_name = ''Color'',
           enum_title = ''Color'', enum_description = [],
           enum_section_values = [EString ''red'', EString ''green''],
           enum_descriptions = []\<rparr>],
      objects =
        [\<lparr>object_kind = Kind_object, object_id = ''object-Obj'', object_name = ''Obj'',
           object_title = ''Obj'', object_description = [],
           object_rows =
             [\<lparr>row_name = ''f'', row_type = ''Inl'', row_description = [], row_array = False,
                row_required = False, row_enumValues = [], row_enumDescriptions = [],
                row_literalValue = None, row_unionVariants = []\<rparr>]\<rparr>],
      unions = [],
      byName =
        [(''Obj'', \<lparr>ref_id = ''object-Obj'', ref_kind = Kind_object\<rparr>),
         (''Color'', \<lparr>ref_id = ''enum-Color'', ref_kind = Kind_enum\<rparr>)]\<rparr>"

definition doc2 :: OpenApiDocument where
  "doc2 = doc_of [(''X'', object_of [(''a'', typed ''string'')]), (''Y'', typed ''string'')]"

definition no_sections :: ReferenceSections where
  "no_sections = \<lparr>enums = [], objects = [], unions = [], byName = []\<rparr>"

text \<open>Two named schemas that refer to each other through a property.\<close>

definition doc4 :: OpenApiDocument where
  "doc4 = doc_of [(''A'', object_of [(''b'', ref_node ''#/components/schemas/B'')]),
                  (''B'', object_of [(''a'', ref_node ''#/components/schemas/A'')])]"

section \<open>Properties\<close>

subsection \<open>The classifier's resolver\<close>

text \<open>
  C6. The pointer resolver returns absent for every reference that does not start with
  \<open>#/\<close>, but the classifier's own \<open>resolveRef\<close> does not: it looks the last
  segment of the reference up among the named schemas, whatever the reference starts
  with. Here the reference \<open>https://example.com/Foo\<close> is resolved to the named
  schema \<open>Foo\<close> of the document.
\<close>

theorem classifier_resolveRef_ignores_prefix:
  "resolveRef_pointer host j ''https://example.com/Foo'' = Inr None
   \<and> resolveRef (doc_of [(''Foo'', typed ''string'')]) (Some (ref_node ''https://example.com/Foo''))
       = Some (typed ''string'')"
  by (simp add: resolveRef_pointer_def resolveRef_def getSchemaFromRef_def ref_node_def
      truthy_def text_of_def doc_of_def)

subsection \<open>Pointer resolution\<close>

lemma replace_tilde1_hd0:
  "(\<exists>ys. replace_tilde1 (c # xs) = CHR ''0'' # ys) \<longleftrightarrow> c = CHR ''0''"
  by (cases xs) auto

lemma replace_tilde0_other:
  "c \<noteq> CHR ''~'' \<Longrightarrow> replace_tilde0 (c # ys) = c # replace_tilde0 ys"
  by (cases ys) auto

lemma decode_eq_unescape: "decodePointerSegment s = unescape s"
  unfolding decodePointerSegment_def
proof (induction s rule: unescape.induct)
  case (1 a b xs)
  show ?case
  proof (cases "a = CHR ''~''")
    case False
    then have "replace_tilde1 (a # b # xs) = a # replace_tilde1 (b # xs)" by simp
    moreover have "replace_tilde0 (a # replace_tilde1 (b # xs)) = a # replace_tilde0 (replace_tilde1 (b # xs))"
      using False by (cases "replace_tilde1 (b # xs)") auto
    ultimately show ?thesis using 1 False by simp
  next
    case True
    show ?thesis
    proof (cases "b = CHR ''1''")
      case b1: True
      with True 1 show ?thesis by (simp add: replace_tilde0_other)
    next
      case b1: False
      show ?thesis
      proof (cases "b = CHR ''0''")
        case b0: True
        have "replace_tilde1 (b # xs) = b # replace_tilde1 xs"
          using b0 by (cases xs) auto
        with True b0 1 show ?thesis by simp
      next
        case b0: False
        have "replace_tilde1 (a # b # xs) = a # replace_tilde1 (b # xs)" using b1 by simp
        moreover have "\<not> (\<exists>ys. replace_tilde1 (b # xs) = CHR ''0'' # ys)"
          using b0 replace_tilde1_hd0 by blast
        then have "replace_tilde0 (a # replace_tilde1 (b # xs)) = a # replace_tilde0 (replace_tilde1 (b # xs))"
          by (cases "replace_tilde1 (b # xs)") auto
        ultimately show ?thesis using 1 True b1 b0 by simp
      qed
    qed
  qed
qed simp_all

lemma lookup_step_None: "lookup_step None p = None"
  by (simp add: lookup_step_def)

lemma lookup_step_Some: "lookup_step (Some v) p = (if v = JNull then None else own v p)"
  by (cases v) (simp_all add: lookup_step_def)

lemma foldl_lookup_step_None: "foldl lookup_step None ps = None"
  by (induction ps) (simp_all add: lookup_step_None)

lemma access_step_simps:
  "access_step host (Inl e) p = Inl e"
  "access_step host (Inr None) p = Inr None"
  "access_step host (Inr (Some v)) p = (if v = JNull then Inr None else member host v p)"
  by (simp_all add: access_step_def)

lemma foldl_access_step_Inl: "foldl (access_step host) (Inl e) ps = Inl e"
  by (induction ps) (simp_all add: access_step_simps)

lemma foldl_access_step_None: "foldl (access_step host) (Inr None) ps = Inr None"
  by (induction ps) (simp_all add: access_step_simps)

lemma pointer_loop_foldl: "pointer_loop host cur ps = foldl (access_step host) (Inr cur) ps"
proof (induction ps arbitrary: cur)
  case Nil
  show ?case by simp
next
  case (Cons p ps)
  show ?case
  proof (cases cur)
    case None
    then show ?thesis by (simp add: access_step_simps foldl_access_step_None)
  next
    case (Some v)
    show ?thesis
    proof (cases "v = JNull")
      case True
      with Some show ?thesis by (simp add: access_step_simps foldl_access_step_None)
    next
      case False
      have loop: "pointer_loop host (Some v) (p # ps) =
                    (case member host v p of Inl e \<Rightarrow> Inl e | Inr next \<Rightarrow> pointer_loop host next ps)"
        using False by (cases v) simp_all
      show ?thesis
        unfolding Some loop using False Cons
        by (cases "member host v p") (simp_all add: access_step_simps foldl_access_step_Inl)
    qed
  qed
qed

lemma plain_path_agrees:
  "plain_path host cur ps \<Longrightarrow> foldl (access_step host) (Inr cur) ps = Inr (foldl lookup_step cur ps)"
proof (induction ps arbitrary: cur)
  case Nil
  show ?case by simp
next
  case (Cons p ps)
  show ?case
  proof (cases cur)
    case None
    then show ?thesis
      by (simp add: access_step_simps foldl_access_step_None lookup_step_None foldl_lookup_step_None)
  next
    case (Some v)
    show ?thesis
    proof (cases "v = JNull")
      case True
      with Some show ?thesis
        by (simp add: access_step_simps foldl_access_step_None lookup_step_Some
              foldl_lookup_step_None)
    next
      case False
      show ?thesis
      proof (cases "own v p")
        case None
        with Cons.prems Some False have "host v p = Inr None" by simp
        with None Some False show ?thesis
          by (simp add: access_step_simps member_def foldl_access_step_None lookup_step_Some
                foldl_lookup_step_None)
      next
        case (Some x)
        with Cons.prems \<open>cur = Some v\<close> False have "plain_path host (Some x) ps" by simp
        from Cons.IH[OF this] Some \<open>cur = Some v\<close> False show ?thesis
          by (simp add: access_step_simps member_def lookup_step_Some)
      qed
    qed
  qed
qed

lemma unescape_escape: "unescape (escape s) = s"
proof (induction s)
  case Nil
  show ?case by simp
next
  case (Cons c cs)
  then show ?case
  proof (cases "escape cs")
    case Nil
    with Cons show ?thesis by auto
  next
    case (Cons d ds)
    with Cons.IH show ?thesis by auto
  qed
qed

lemma escape_no_slash: "CHR ''/'' \<notin> set (escape s)"
  by (induction s) auto

lemma split_on_no_sep: "c \<notin> set s \<Longrightarrow> split_on c s = [s]"
  by (induction s) auto

lemma split_on_append: "c \<notin> set s \<Longrightarrow> split_on c (s @ c # r) = s # split_on c r"
  by (induction s) auto

lemma split_on_join:
  "ss \<noteq> [] \<Longrightarrow> \<forall>s\<in>set ss. CHR ''/'' \<notin> set s \<Longrightarrow> split_on CHR ''/'' (join_slash ss) = ss"
  by (induction ss rule: join_slash.induct) (auto simp: split_on_no_sep split_on_append)

text \<open>
  C5 (amended). A pointer \<open>#/\<close> followed by segments resolves to what the member
  accesses of the language reach from the document root, one access for each segment
  in sequence, each segment decoded (\<open>~1\<close> to \<open>/\<close>, \<open>~0\<close> to \<open>~\<close>), and to
  absent once a value on the way is absent or \<open>null\<close>. Where the path of the
  decoded segments is plain, no segment naming an inherited member where it is looked
  up, this is exactly the value that sequential field lookup reaches; so it is for
  the pointer built from a plain path of keys. A pointer that does not start with
  \<open>#/\<close> resolves to absent.
\<close>

theorem getByJsonPointer_sequential_lookup:
  "getByJsonPointer host doc (''#/'' @ rest)
     = foldl (access_step host) (Inr (Some doc)) (map unescape (split_on CHR ''/'' rest))
   \<and> (plain_path host (Some doc) (map unescape (split_on CHR ''/'' rest)) \<longrightarrow>
        getByJsonPointer host doc (''#/'' @ rest)
          = Inr (foldl lookup_step (Some doc) (map unescape (split_on CHR ''/'' rest))))
   \<and> (segs \<noteq> [] \<and> plain_path host (Some doc) segs \<longrightarrow>
        getByJsonPointer host doc (pointer_of segs) = Inr (foldl lookup_step (Some doc) segs))
   \<and> (foldl (access_step host) (Inr (Some doc)) pre \<in> {Inr None, Inr (Some JNull)} \<longrightarrow>
        getByJsonPointer host doc (pointer_of (pre @ s # post)) = Inr None)
   \<and> (\<not> startsWith p ''#/'' \<longrightarrow> getByJsonPointer host doc p = Inr None)"
proof -
  have general: "getByJsonPointer host doc (''#/'' @ r)
     = foldl (access_step host) (Inr (Some doc)) (map unescape (split_on CHR ''/'' r))" for r
    by (simp add: getByJsonPointer_def pointer_loop_foldl decode_eq_unescape [abs_def])
  have built: "getByJsonPointer host doc (pointer_of ss) = foldl (access_step host) (Inr (Some doc)) ss"
    if "ss \<noteq> []" for ss
  proof -
    have "split_on CHR ''/'' (join_slash (map escape ss)) = map escape ss"
      using that by (intro split_on_join) (auto simp: escape_no_slash)
    then show ?thesis
      unfolding pointer_of_def general by (simp add: o_def unescape_escape)
  qed
  have plain: "getByJsonPointer host doc (''#/'' @ rest)
          = Inr (foldl lookup_step (Some doc) (map unescape (split_on CHR ''/'' rest)))"
    if "plain_path host (Some doc) (map unescape (split_on CHR ''/'' rest))"
    unfolding general using that by (rule plain_path_agrees)
  have valid: "getByJsonPointer host doc (pointer_of segs) = Inr (foldl lookup_step (Some doc) segs)"
    if "segs \<noteq> []" "plain_path host (Some doc) segs"
    unfolding built[OF that(1)] using that(2) by (rule plain_path_agrees)
  have absent: "getByJsonPointer host doc (pointer_of (pre @ s # post)) = Inr None"
    if "foldl (access_step host) (Inr (Some doc)) pre \<in> {Inr None, Inr (Some JNull)}"
  proof -
    have "foldl (access_step host) (Inr (Some doc)) (pre @ s # post)
            = foldl (access_step host)
                (access_step host (foldl (access_step host) (Inr (Some doc)) pre) s) post"
      by simp
    also have "access_step host (foldl (access_step host) (Inr (Some doc)) pre) s = Inr None"
      using that by (auto simp: access_step_simps)
    finally show ?thesis by (simp add: built foldl_access_step_None)
  qed
  have other: "getByJsonPointer host doc p = Inr None" if "\<not> startsWith p ''#/''"
    using that by (simp add: getByJsonPointer_def)
  from general plain valid absent other show ?thesis by blast
qed

text \<open>
  In the empty object the pointer \<open>#/constructor/name\<close> reaches the name of the
  inherited function \<open>Object\<close>, where field lookup finds nothing.
\<close>

theorem getByJsonPointer_inherited_counterexample:
  "getByJsonPointer host_members (JObj []) ''#/constructor/name'' = Inr (Some (JStr ''Object''))
   \<and> foldl lookup_step (Some (JObj [] :: host_object json)) [''constructor'', ''name''] = None"
  by (simp add: getByJsonPointer_def decodePointerSegment_def member_def host_members_def
      lookup_step_Some lookup_step_None)

theorem getByJsonPointer_sequential_lookup_witness:
  "[''a/b'', ''m~n'', ''0''] \<noteq> []
   \<and> plain_path host_members (Some doc5) [''a/b'', ''m~n'', ''0'']
   \<and> foldl (access_step host_members) (Inr (Some doc5)) [''c''] \<in> {Inr None, Inr (Some JNull)}
   \<and> \<not> startsWith ''/a~1b'' ''#/''
   \<and> getByJsonPointer host_members doc5 ''#/a~1b/m~0n/0'' = Inr (Some (JNum 7))
   \<and> getByJsonPointer host_members doc5 ''#/c/x/y'' = Inr None
   \<and> getByJsonPointer host_members doc5 ''/a~1b'' = Inr None"
proof -
  have h1: "[''a/b'', ''m~n'', ''0''] \<noteq> []" by simp
  have h2: "plain_path host_members (Some doc5) [''a/b'', ''m~n'', ''0'']"
    by (simp add: doc5_def array_index_def digit_val_def)
  have h3: "foldl (access_step host_members) (Inr (Some doc5)) [''c''] \<in> {Inr None, Inr (Some JNull)}"
    by (simp add: doc5_def access_step_simps member_def)
  have h4: "\<not> startsWith ''/a~1b'' ''#/''" by simp
  have e1: "foldl lookup_step (Some doc5) [''a/b'', ''m~n'', ''0''] = Some (JNum 7)"
    by (simp add: doc5_def lookup_step_Some array_index_def digit_val_def)
  note t = getByJsonPointer_sequential_lookup
         [of host_members doc5 "''a~1b''" "[''a/b'', ''m~n'', ''0'']" "[''c'']" "''x''" "[''y'']"
             "''/a~1b''"]
  from t h1 h2 have a: "getByJsonPointer host_members doc5 (pointer_of [''a/b'', ''m~n'', ''0''])
                          = Inr (foldl lookup_step (Some doc5) [''a/b'', ''m~n'', ''0''])"
    by blast
  from t h3 have b: "getByJsonPointer host_members doc5 (pointer_of ([''c''] @ ''x'' # [''y''])) = Inr None"
    by blast
  from t h4 have c: "getByJsonPointer host_members doc5 ''/a~1b'' = Inr None" by blast
  show ?thesis using h1 h2 h3 h4 a[unfolded e1] b c by (simp add: pointer_of_def)
qed

subsection \<open>Type label\<close>

lemma getTypeLabel_nonempty: "getTypeLabel doc so \<noteq> []"
proof (induction doc so rule: getTypeLabel.induct)
  case (1 doc)
  show ?case by simp
next
  case (2 doc s)
  show ?case
    using 2
    by (subst getTypeLabel.simps) (auto simp: truthy_def text_of_def Let_def split: option.splits)
qed

text \<open>
  C3 (amended). The type label is the first opinion of these rules, in this order, and
  \<open>unknown\<close> when none has one: a reference node yields its referenced name; a node
  with \<open>properties\<close> or a truthy \<open>additionalProperties\<close> yields \<open>object\<close>; a
  node with \<open>items\<close> yields the label of its items; a node with a type yields it; a
  node whose \<open>allOf\<close> has a reference branch yields the name of the first such branch
  (\<open>object\<close> when that name is empty), and an \<open>allOf\<close> without one has no opinion;
  an \<open>anyOf\<close> node yields the label of its first branch whose type is not \<open>null\<close>;
  a \<open>oneOf\<close> node yields the label of its first branch.
\<close>

theorem getTypeLabel_priority:
  "getTypeLabel doc None = ''unknown''
   \<and> getTypeLabel doc (Some s) = (case first_opinion (label_rules doc s) of Some l \<Rightarrow> l | None \<Rightarrow> ''unknown'')"
proof -
  have ne: "getTypeLabel doc so \<noteq> []" for so by (rule getTypeLabel_nonempty)
  show ?thesis
    by (cases "items s"; cases "allOf s"; cases "anyOf s"; cases "oneOf s")
       (auto simp: first_opinion_def label_rules_def ne truthy_def text_of_def Let_def
             split: option.splits)
qed

text \<open>An \<open>allOf\<close> node without a reference branch is labelled \<open>unknown\<close>, not \<open>object\<close>.\<close>

theorem getTypeLabel_allOf_counterexample:
  "getTypeLabel (doc_of []) (Some (allOf_only [typed ''string''])) = ''unknown''
   \<and> getTypeLabel (doc_of []) (Some (allOf_only [typed ''string''])) \<noteq> ''object''"
  by (simp add: allOf_only_def typed_def truthy_def truthy_additional_def)

theorem getTypeLabel_priority_witness:
  "first_opinion (label_rules (doc_of []) (allOf_only [typed ''string'', ref_node ''#/components/schemas/Base'']))
     = Some ''Base''
   \<and> getTypeLabel (doc_of []) (Some (allOf_only [typed ''string'', ref_node ''#/components/schemas/Base'']))
     = ''Base''"
proof -
  have r: "first_opinion (label_rules (doc_of []) (allOf_only [typed ''string'', ref_node ''#/components/schemas/Base'']))
     = Some ''Base''"
    by (simp add: first_opinion_def label_rules_def allOf_only_def typed_def ref_node_def
        truthy_def truthy_additional_def getRefName_def text_of_def)
  from getTypeLabel_priority
         [of "doc_of []" "allOf_only [typed ''string'', ref_node ''#/components/schemas/Base'']"]
  show ?thesis using r by simp
qed

subsection \<open>Enum values\<close>

lemma remdups_append_filter:
  "remdups (xs @ ys) = remdups (filter (\<lambda>x. x \<notin> set ys) xs) @ remdups ys"
  by (induction xs) auto

lemma first_seen_Nil: "first_seen [] = []"
  by (simp add: first_seen_def)

lemma first_seen_Cons: "first_seen (x # xs) = x # first_seen (removeAll x xs)"
proof -
  have "filter (\<lambda>y. y \<noteq> x) (rev xs) = rev (removeAll x xs)"
    by (induction xs) auto
  then show ?thesis
    by (simp add: first_seen_def remdups_append_filter)
qed

lemma first_seen_append:
  "first_seen (xs @ ys) = first_seen xs @ first_seen (filter (\<lambda>y. y \<notin> set xs) ys)"
  by (simp add: first_seen_def remdups_append_filter rev_filter)

lemma set_first_seen: "set (first_seen xs) = set xs"
  by (simp add: first_seen_def)

lemma distinct_first_seen: "distinct (first_seen xs)"
  by (simp add: first_seen_def)

lemma first_seen_distinct: "distinct xs \<Longrightarrow> first_seen xs = xs"
  by (simp add: first_seen_def distinct_remdups_id)

lemma pushNew_first_seen:
  "pushNew ivs acc = acc @ first_seen (filter (\<lambda>v. v \<notin> set acc) ivs)"
proof -
  have "fold (\<lambda>value vs. if value \<in> set vs then vs else vs @ [value]) ivs acc
          = acc @ first_seen (filter (\<lambda>v. v \<notin> set acc) ivs)"
  proof (induction ivs arbitrary: acc)
    case Nil
    show ?case by (simp add: first_seen_Nil)
  next
    case (Cons v ivs)
    show ?case
    proof (cases "v \<in> set acc")
      case True
      then show ?thesis using Cons by simp
    next
      case False
      have "filter (\<lambda>x. x \<notin> set (acc @ [v])) ivs = removeAll v (filter (\<lambda>x. x \<notin> set acc) ivs)"
        by (induction ivs) auto
      then show ?thesis using False Cons by (simp add: first_seen_Cons)
    qed
  qed
  then show ?thesis by (simp add: pushNew_def)
qed

lemma gather_closed_form:
  "foldM (\<lambda>item values. Option.bind (f item) (\<lambda>itemValues. Some (pushNew itemValues values))) bs acc
     = map_option (\<lambda>vss. acc @ first_seen (filter (\<lambda>v. v \<notin> set acc) (concat vss))) (mapM f bs)"
proof (induction bs arbitrary: acc)
  case Nil
  show ?case by (simp add: first_seen_Nil)
next
  case (Cons b bs)
  show ?case
  proof (cases "f b")
    case None
    then show ?thesis by simp
  next
    case (Some iv)
    have *: "first_seen (filter (\<lambda>v. v \<notin> set acc) iv) @
             first_seen (filter (\<lambda>v. v \<notin> set (pushNew iv acc)) ys)
           = first_seen (filter (\<lambda>v. v \<notin> set acc) (iv @ ys))" for ys
      by (simp add: first_seen_append pushNew_first_seen set_first_seen conj_commute
               cong: filter_cong)
    show ?thesis
      using Some Cons[of "pushNew iv acc"]
      apply (cases "mapM f bs")
       apply simp
      apply (simp add: pushNew_first_seen[of iv acc])
      using * apply (simp add: pushNew_first_seen)
      done
  qed
qed


text \<open>
  C8 (amended). Enum values are derived in this priority: a reference node yields the
  values of the node it resolves to; else a node of type \<open>array\<close> with \<open>items\<close>
  yields the values of its items, before its own \<open>enum\<close> is looked at; else the
  node's own \<open>enum\<close> array; else the values of the branches of the first present of
  \<open>anyOf\<close>, \<open>oneOf\<close>, \<open>allOf\<close>, gathered in branch order, each value at its
  first position only; else the empty list. The call returns no value exactly when a
  call it depends on returns none.
\<close>

theorem getEnumValues_priority:
  "getEnumValues doc None = Some []
   \<and> getEnumValues doc (Some s) =
       (if truthy (ref s) then getEnumValues doc (resolveRef doc (Some s))
        else if type s = Some ''array'' \<and> items s \<noteq> None then getEnumValues doc (items s)
        else (case enum_values s of
                Some vs \<Rightarrow> Some vs
              | None \<Rightarrow>
                  (case orElse (anyOf s) (orElse (oneOf s) (allOf s)) of
                     Some bs \<Rightarrow>
                       map_option (\<lambda>vss. first_seen (concat vss))
                         (mapM (\<lambda>b. getEnumValues doc (Some b)) bs)
                   | None \<Rightarrow> Some [])))"
proof -
  have loop: "foldM (\<lambda>item values. Option.bind (getEnumValues doc (Some item))
                       (\<lambda>itemValues. Some (pushNew itemValues values))) bs []
              = map_option (\<lambda>vss. first_seen (concat vss))
                  (mapM (\<lambda>b. getEnumValues doc (Some b)) bs)" for bs
    by (simp add: gather_closed_form)
  have "getEnumValues doc None = Some []"
    by (subst getEnumValues.simps) simp
  moreover have "getEnumValues doc (Some s) =
       (if truthy (ref s) then getEnumValues doc (resolveRef doc (Some s))
        else if type s = Some ''array'' \<and> items s \<noteq> None then getEnumValues doc (items s)
        else (case enum_values s of
                Some vs \<Rightarrow> Some vs
              | None \<Rightarrow>
                  (case orElse (anyOf s) (orElse (oneOf s) (allOf s)) of
                     Some bs \<Rightarrow>
                       map_option (\<lambda>vss. first_seen (concat vss))
                         (mapM (\<lambda>b. getEnumValues doc (Some b)) bs)
                   | None \<Rightarrow> Some [])))"
    by (subst getEnumValues.simps) (auto simp: loop split: option.splits)
  ultimately show ?thesis by simp
qed

text \<open>An array node with an own \<open>enum\<close> yields the values of its items, not its own.\<close>

theorem getEnumValues_array_counterexample:
  "getEnumValues (doc_of []) (Some array_with_enum) = Some [EString ''a'']
   \<and> enum_values array_with_enum = Some [EString ''b'']"
  by (simp add: getEnumValues.simps array_with_enum_def truthy_def)

theorem getEnumValues_priority_witness:
  "getEnumValues (doc_of [])
     (Some (nullable (enum_only [EString ''a'', EString ''b'', EString ''a''])))
   = Some [EString ''a'', EString ''b'']"
proof -
  have e: "getEnumValues (doc_of []) (Some (enum_only vs)) = Some vs" for vs
    by (simp add: getEnumValues.simps enum_only_def truthy_def)
  have n: "getEnumValues (doc_of [])
             (Some (Schema None None (Some ''null'') None None None None None None None None None None None))
           = Some []"
    by (simp add: getEnumValues.simps truthy_def orElse_def)
  have t: "\<not> truthy (ref (nullable T))" "type (nullable T) = None" "enum_values (nullable T) = None"
    "orElse (anyOf (nullable T)) (orElse (oneOf (nullable T)) (allOf (nullable T)))
       = Some [T, Schema None None (Some ''null'') None None None None None None None None None None None]"
    for T
    by (simp_all add: nullable_def truthy_def orElse_def)
  show ?thesis
    using getEnumValues_priority
            [of "doc_of []" "nullable (enum_only [EString ''a'', EString ''b'', EString ''a''])"]
    by (simp add: t e n first_seen_def)
qed

subsection \<open>Nullable unions\<close>

lemma getEnumValues_null:
  "getEnumValues doc
     (Some (Schema None None (Some ''null'') None None None None None None None None None None None))
   = Some []"
  by (subst getEnumValues.simps) (simp add: truthy_def orElse_def)

lemma getSchemaProperties_null:
  "getSchemaProperties doc
     (Some (Schema None None (Some ''null'') None None None None None None None None None None None))
   = Some None"
  by (subst getSchemaProperties.simps) (simp add: truthy_def found_def)

text \<open>
  C7 (amended). For a schema \<open>T\<close> whose own type is not \<open>null\<close>, the nullable union
  of \<open>T\<close> has the type label of \<open>T\<close>. For every \<open>T\<close> it has the properties map of
  \<open>T\<close>, and its enum values are those of \<open>T\<close> with each value at its first position
  only: the same list when the values of \<open>T\<close> are pairwise different.
\<close>

theorem nullable_union_unwrapped:
  "(type T \<noteq> Some ''null'' \<longrightarrow>
      getTypeLabel doc (Some (nullable T)) = getTypeLabel doc (Some T))
   \<and> getSchemaProperties doc (Some (nullable T)) = getSchemaProperties doc (Some T)
   \<and> getEnumValues doc (Some (nullable T)) = map_option first_seen (getEnumValues doc (Some T))
   \<and> (getEnumValues doc (Some T) = Some vs \<and> distinct vs \<longrightarrow>
        getEnumValues doc (Some (nullable T)) = Some vs)"
proof -
  have label: "getTypeLabel doc (Some (nullable T)) = getTypeLabel doc (Some T)"
    if "type T \<noteq> Some ''null''"
    using that getTypeLabel_nonempty[of doc "Some T"]
    by (simp add: nullable_def truthy_def truthy_additional_def)
  have props: "getSchemaProperties doc (Some (nullable T)) = getSchemaProperties doc (Some T)"
    by (subst getSchemaProperties.simps)
       (cases "getSchemaProperties doc (Some T)";
        auto simp: nullable_def truthy_def found_def getSchemaProperties_null)
  have vals: "getEnumValues doc (Some (nullable T)) = map_option first_seen (getEnumValues doc (Some T))"
    by (subst getEnumValues.simps)
       (cases "getEnumValues doc (Some T)";
        simp add: nullable_def truthy_def orElse_def getEnumValues_null pushNew_first_seen
                  first_seen_Nil)
  show ?thesis using label props vals by (auto simp: first_seen_distinct)
qed

text \<open>With a repeated value in the \<open>enum\<close> of \<open>T\<close> the two lists differ.\<close>

theorem nullable_union_enum_counterexample:
  "getEnumValues (doc_of []) (Some (nullable (enum_only [EString ''a'', EString ''a''])))
     \<noteq> getEnumValues (doc_of []) (Some (enum_only [EString ''a'', EString ''a'']))"
proof -
  have e: "getEnumValues (doc_of []) (Some (enum_only vs)) = Some vs" for vs
    by (simp add: getEnumValues.simps enum_only_def truthy_def)
  show ?thesis
    by (subst getEnumValues.simps)
       (simp add: nullable_def truthy_def orElse_def e getEnumValues_null pushNew_def)
qed

theorem nullable_union_unwrapped_witness:
  "type (enum_only [EString ''a'', EString ''b'']) \<noteq> Some ''null''
   \<and> getEnumValues (doc_of []) (Some (enum_only [EString ''a'', EString ''b'']))
       = Some [EString ''a'', EString ''b'']
   \<and> distinct [EString ''a'', EString ''b'']
   \<and> getTypeLabel (doc_of []) (Some (nullable (enum_only [EString ''a'', EString ''b''])))
       = ''unknown''
   \<and> getEnumValues (doc_of []) (Some (nullable (enum_only [EString ''a'', EString ''b''])))
       = Some [EString ''a'', EString ''b'']"
proof -
  have h1: "type (enum_only [EString ''a'', EString ''b'']) \<noteq> Some ''null''"
    by (simp add: enum_only_def)
  have h2: "getEnumValues (doc_of []) (Some (enum_only [EString ''a'', EString ''b'']))
       = Some [EString ''a'', EString ''b'']"
    by (simp add: getEnumValues.simps enum_only_def truthy_def)
  have h3: "distinct [EString ''a'', EString ''b'']" by simp
  have l: "getTypeLabel (doc_of []) (Some (enum_only [EString ''a'', EString ''b''])) = ''unknown''"
    by (simp add: enum_only_def truthy_def truthy_additional_def)
  note t = nullable_union_unwrapped
         [of "enum_only [EString ''a'', EString ''b'']" "doc_of []" "[EString ''a'', EString ''b'']"]
  from t h1 have a: "getTypeLabel (doc_of []) (Some (nullable (enum_only [EString ''a'', EString ''b''])))
       = getTypeLabel (doc_of []) (Some (enum_only [EString ''a'', EString ''b'']))"
    by blast
  from t h2 h3 have b: "getEnumValues (doc_of []) (Some (nullable (enum_only [EString ''a'', EString ''b''])))
       = Some [EString ''a'', EString ''b'']"
    by blast
  from a l have a': "getTypeLabel (doc_of []) (Some (nullable (enum_only [EString ''a'', EString ''b''])))
       = ''unknown''"
    by (rule trans)
  show ?thesis using h1 h2 h3 a' b by blast
qed

subsection \<open>Evaluation\<close>

text \<open>
  The equations that evaluate the model on a concrete document. The recursive ones
  hold without a condition, so they are given to the simplifier for closed terms only.
\<close>

lemmas classifier_unfold =
  getDescription.simps getUnionVariants.simps getInlineable.simps getUnionTitle.simps
  getSchemaProperties.simps getSchemaRequired.simps isSchemaComplex.simps isArraySchema.simps
  getEnumValues.simps getEnumDescriptions.simps getSchemaKind.simps collectRefSchemas.simps

lemmas model_defs =
  getSchemaFromRef_def resolveRef_def getRefName_def truthy_def text_of_def
  truthy_additional_def orElse_def nth_opt_def found_def pushNew_def getTypeClass_def
  getVariantLabel_def sectionIdOf_def expandUnionVariantEntries_def variantOfEntry_def
  buildUnionVariants_def literalValueOf_def buildInlineRows_def classifyRef_def
  emitSection_def buildSectionsFromRefs_def collectRefsFromSchemas_def
  buildParameterRows_def buildReferenceIndex_def buildReferenceSections_def
  ref_node_def typed_def doc_of_def



subsection \<open>Section builder\<close>

lemma mset_insertBy: "mset (insertBy cmp x xs) = add_mset x (mset xs)"
  by (induction xs) auto

lemma mset_sortBy: "mset (sortBy cmp xs) = mset xs"
  by (induction xs) (auto simp: mset_insertBy)

lemma bind_eq_SomeD:
  "Option.bind m f = Some y \<Longrightarrow> \<exists>x. m = Some x \<and> f x = Some y"
  by (cases m) auto

lemma classifyRef_step:
  assumes "classifyRef doc (n, s) (names, es) = Some (names', es')"
  shows "(names' = names \<and> es' = es)
         \<or> (getInlineable doc (Some s) = Some False \<and> n \<notin> fst ` set names
             \<and> (\<exists>k. names' = names @ [(n, \<lparr>ref_id = kind_text k @ ''-'' @ n, ref_kind = k\<rparr>)]
                    \<and> es' = es @ [\<lparr>se_name = n, se_schema = s, se_kind = k,
                                    se_id = kind_text k @ ''-'' @ n\<rparr>]))"
proof -
  from assms obtain inl where i: "getInlineable doc (Some s) = Some inl"
    by (cases "getInlineable doc (Some s)") (auto simp: classifyRef_def)
  show ?thesis
  proof (cases inl)
    case True
    with assms i show ?thesis by (simp add: classifyRef_def)
  next
    case False
    with assms i obtain k where k: "getSchemaKind doc (Some s) = Some k"
      by (cases "getSchemaKind doc (Some s)") (auto simp: classifyRef_def)
    show ?thesis
      using assms i False k
      by (cases k) (auto simp: classifyRef_def Let_def split: if_splits)
  qed
qed

lemma classifyRef_fold:
  assumes "foldM (classifyRef doc) rs (names, es) = Some (names', es')"
    and "names_inv doc refs names es" and "set rs \<subseteq> set refs"
  shows "names_inv doc refs names' es'"
  using assms
proof (induction rs arbitrary: names es)
  case Nil
  then show ?case by simp
next
  case (Cons r rs)
  obtain n s where r: "r = (n, s)" by (cases r)
  from Cons.prems(1) obtain st where st: "classifyRef doc (n, s) (names, es) = Some st"
    and rest: "foldM (classifyRef doc) rs st = Some (names', es')"
    unfolding r by (auto dest: bind_eq_SomeD)
  obtain names1 es1 where st1: "st = (names1, es1)" by (cases st)
  have mem: "(n, s) \<in> set refs" using Cons.prems(3) r by simp
  have keys: "fst ` set names = se_name ` set es"
    using Cons.prems(2) unfolding names_inv_def by (metis set_map)
  from classifyRef_step[OF st[unfolded st1]]
  have "names_inv doc refs names1 es1"
  proof
    assume "names1 = names \<and> es1 = es"
    with Cons.prems(2) show ?thesis by simp
  next
    assume a: "getInlineable doc (Some s) = Some False \<and> n \<notin> fst ` set names
             \<and> (\<exists>k. names1 = names @ [(n, \<lparr>ref_id = kind_text k @ ''-'' @ n, ref_kind = k\<rparr>)]
                    \<and> es1 = es @ [\<lparr>se_name = n, se_schema = s, se_kind = k,
                                    se_id = kind_text k @ ''-'' @ n\<rparr>])"
    then obtain k where n1: "names1 = names @ [(n, \<lparr>ref_id = kind_text k @ ''-'' @ n, ref_kind = k\<rparr>)]"
      and e1: "es1 = es @ [\<lparr>se_name = n, se_schema = s, se_kind = k,
                                    se_id = kind_text k @ ''-'' @ n\<rparr>]"
      by blast
    from a have fresh: "n \<notin> fst ` set names" and inl: "getInlineable doc (Some s) = Some False"
      by simp_all
    have 1: "map fst names1 = map se_name es1"
      using Cons.prems(2) by (simp add: n1 e1 names_inv_def)
    have d: "distinct (map fst names)"
      using Cons.prems(2) unfolding names_inv_def by blast
    have 2: "distinct (map fst names1)"
      using d fresh by (simp add: n1)
    have 3: "\<forall>e\<in>set es1. entry_ok e"
      using Cons.prems(2) by (simp add: e1 names_inv_def entry_ok_def)
    have 4: "\<forall>(m, r)\<in>set names1. ref_id r = kind_text (ref_kind r) @ ''-'' @ m"
      using Cons.prems(2) by (simp add: n1 names_inv_def)
    have 5: "\<forall>m\<in>fst ` set names1. \<exists>s. (m, s) \<in> set refs \<and> getInlineable doc (Some s) = Some False"
    proof
      fix m assume "m \<in> fst ` set names1"
      then have "m = n \<or> m \<in> fst ` set names" by (auto simp: n1)
      then show "\<exists>s. (m, s) \<in> set refs \<and> getInlineable doc (Some s) = Some False"
        using mem inl Cons.prems(2) unfolding names_inv_def by blast
    qed
    from 1 2 3 4 5 show ?thesis unfolding names_inv_def by blast
  qed
  with Cons.IH[of names1 es1] rest st1 Cons.prems(3) show ?case by simp
qed

lemma emitSection_step:
  assumes "emitSection lc doc e secs = Some secs'"
  shows "byName secs' = byName secs
         \<and> mset (section_keys secs') = add_mset (entry_key e) (mset (section_keys secs))"
proof (cases "se_kind e")
  case Kind_enum
  with assms show ?thesis
    by (auto simp: emitSection_def section_keys_def entry_key_def dest!: bind_eq_SomeD)
next
  case Kind_union
  with assms show ?thesis
    by (auto simp: emitSection_def section_keys_def entry_key_def dest!: bind_eq_SomeD)
next
  case Kind_object
  with assms show ?thesis
    by (auto simp: emitSection_def section_keys_def entry_key_def dest!: bind_eq_SomeD)
qed

lemma emitSection_fold:
  assumes "foldM (emitSection lc doc) es secs = Some secs'"
  shows "byName secs' = byName secs
         \<and> mset (section_keys secs') = mset (map entry_key es) + mset (section_keys secs)"
  using assms
proof (induction es arbitrary: secs)
  case Nil
  then show ?case by simp
next
  case (Cons e es)
  from Cons.prems obtain s1 where s1: "emitSection lc doc e secs = Some s1"
    and rest: "foldM (emitSection lc doc) es s1 = Some secs'"
    by (auto dest: bind_eq_SomeD)
  from emitSection_step[OF s1] Cons.IH[OF rest] show ?case by simp
qed

lemma buildSectionsFromRefs_keys:
  assumes "buildSectionsFromRefs lc doc refs = Some secs"
  shows "\<exists>es. names_inv doc refs (byName secs) es
              \<and> mset (section_keys secs) = mset (map entry_key es)"
proof -
  from assms obtain names es where f1: "foldM (classifyRef doc) refs ([], []) = Some (names, es)"
    and r: "Option.bind (foldM (emitSection lc doc) es
                    \<lparr>enums = [], objects = [], unions = [], byName = names\<rparr>)
       (\<lambda>secs.
          Some \<lparr>enums = sortBy (\<lambda>a b. lc (enum_name a) (enum_name b)) (enums secs),
                objects = sortBy (\<lambda>a b. lc (object_name a) (object_name b)) (objects secs),
                unions = sortBy (\<lambda>a b. lc (union_name a) (union_name b)) (unions secs),
                byName = byName secs\<rparr>) = Some secs"
    unfolding buildSectionsFromRefs_def by (auto dest!: bind_eq_SomeD)
  from r obtain s2 where f2: "foldM (emitSection lc doc) es
                    \<lparr>enums = [], objects = [], unions = [], byName = names\<rparr> = Some s2"
    and secs: "secs = \<lparr>enums = sortBy (\<lambda>a b. lc (enum_name a) (enum_name b)) (enums s2),
                objects = sortBy (\<lambda>a b. lc (object_name a) (object_name b)) (objects s2),
                unions = sortBy (\<lambda>a b. lc (union_name a) (union_name b)) (unions s2),
                byName = byName s2\<rparr>"
    by (auto dest!: bind_eq_SomeD)
  have inv: "names_inv doc refs names es"
    by (rule classifyRef_fold[OF f1]) (simp_all add: names_inv_def)
  from emitSection_fold[OF f2]
  have b: "byName s2 = names" and k: "mset (section_keys s2) = mset (map entry_key es)"
    by (simp_all add: section_keys_def)
  have "mset (section_keys secs) = mset (section_keys s2)"
    unfolding secs section_keys_def by (simp add: mset_sortBy)
  with inv b k secs show ?thesis by auto
qed


lemma name_of_id:
  "tl (dropWhile (\<lambda>c. c \<noteq> CHR ''-'') (kind_text k @ CHR ''-'' # n)) = n"
  by (cases k) simp_all

lemma id_injective:
  assumes "kind_text k @ ''-'' @ n = kind_text k' @ ''-'' @ n'"
  shows "k = k' \<and> n = n'"
proof -
  from assms have "kind_text k @ CHR ''-'' # n = kind_text k' @ CHR ''-'' # n'" by simp
  then have "n = n'" by (metis name_of_id)
  moreover from assms have "k = k'" by (cases k; cases k') simp_all
  ultimately show ?thesis by simp
qed

lemma section_names_keys: "section_names secs = map (\<lambda>(k, n, i). n) (section_keys secs)"
  by (simp add: section_names_def section_keys_def)

lemma section_ids_keys: "section_ids secs = map (\<lambda>(k, n, i). i) (section_keys secs)"
  by (simp add: section_ids_def section_keys_def)

lemma built_sections:
  assumes "buildSectionsFromRefs lc doc refs = Some secs"
  obtains es where "names_inv doc refs (byName secs) es"
    and "mset (section_names secs) = mset (map se_name es)"
    and "mset (section_ids secs) = mset (map se_id es)"
    and "set (section_keys secs) = entry_key ` set es"
proof -
  from buildSectionsFromRefs_keys[OF assms] obtain es
    where inv: "names_inv doc refs (byName secs) es"
      and k: "mset (section_keys secs) = mset (map entry_key es)"
    by blast
  have "mset (map (\<lambda>(k, n, i). n) (section_keys secs)) = mset (map (\<lambda>(k, n, i). n) (map entry_key es))"
    using k by (metis mset_map)
  then have n: "mset (section_names secs) = mset (map se_name es)"
    by (simp add: section_names_keys entry_key_def o_def)
  have "mset (map (\<lambda>(k, n, i). i) (section_keys secs)) = mset (map (\<lambda>(k, n, i). i) (map entry_key es))"
    using k by (metis mset_map)
  then have i: "mset (section_ids secs) = mset (map se_id es)"
    by (simp add: section_ids_keys entry_key_def o_def)
  have "set (section_keys secs) = set (map entry_key es)"
    using k by (rule mset_eq_setD)
  then have s: "set (section_keys secs) = entry_key ` set es" by simp
  from inv n i s show ?thesis by (rule that)
qed

lemma entry_ids_distinct:
  assumes "\<forall>e\<in>set es. entry_ok e" and "distinct (map se_name es)"
  shows "distinct (map se_id es)"
proof -
  have "map se_name es = map (\<lambda>i. tl (dropWhile (\<lambda>c. c \<noteq> CHR ''-'') i)) (map se_id es)"
    using assms(1) by (simp add: entry_ok_def name_of_id)
  with assms(2) show ?thesis by (metis distinct_map)
qed

text \<open>
  C9. The ids of the sections built in one call are pairwise different, and so are
  their names: no name has two sections. Every id is the kind, a hyphen and the name,
  and two ids so formed are equal only for the same kind and the same name.
\<close>

theorem section_ids_unique:
  assumes "buildSectionsFromRefs lc doc refs = Some secs"
  shows "distinct (section_ids secs)
         \<and> distinct (section_names secs)
         \<and> distinct (map fst (byName secs))
         \<and> (\<forall>(k, n, i)\<in>set (section_keys secs). i = kind_text k @ ''-'' @ n)
         \<and> (\<forall>k n k' n'. kind_text k @ ''-'' @ n = kind_text k' @ ''-'' @ n' \<longrightarrow> k = k' \<and> n = n')"
proof -
  from assms obtain es where inv: "names_inv doc refs (byName secs) es"
    and n: "mset (section_names secs) = mset (map se_name es)"
    and i: "mset (section_ids secs) = mset (map se_id es)"
    and s: "set (section_keys secs) = entry_key ` set es"
    by (rule built_sections)
  from inv have ok: "\<forall>e\<in>set es. entry_ok e" and d: "distinct (map fst (byName secs))"
    and eq: "map fst (byName secs) = map se_name es"
    unfolding names_inv_def by blast+
  from d eq have dn: "distinct (map se_name es)" by simp
  have 1: "distinct (section_ids secs)"
    using entry_ids_distinct[OF ok dn] i by (metis mset_eq_imp_distinct_iff)
  have 2: "distinct (section_names secs)"
    using dn n by (metis mset_eq_imp_distinct_iff)
  have 3: "\<forall>(k, n, i)\<in>set (section_keys secs). i = kind_text k @ ''-'' @ n"
    using ok unfolding s by (auto simp: entry_key_def entry_ok_def)
  from 1 2 d 3 id_injective show ?thesis by blast
qed

text \<open>
  C1. A named schema of the map given to the section builder that the classifier
  marks inlineable is no key of the section set that is built: its name is not in
  \<open>byName\<close>, no enum, object or union section has its name, and no section has an
  id formed from its name. The map has one schema for a name.
\<close>

theorem inlineable_never_a_section:
  assumes "buildSectionsFromRefs lc doc refs = Some secs"
    and "distinct (map fst refs)"
    and "(name, schema) \<in> set refs"
    and "getInlineable doc (Some schema) = Some True"
  shows "name \<notin> fst ` set (byName secs)
         \<and> name \<notin> set (section_names secs)
         \<and> (\<forall>k. kind_text k @ ''-'' @ name \<notin> set (section_ids secs))"
proof -
  from assms(1) obtain es where inv: "names_inv doc refs (byName secs) es"
    and n: "mset (section_names secs) = mset (map se_name es)"
    and i: "mset (section_ids secs) = mset (map se_id es)"
    by (rule built_sections)
  from inv have ok: "\<forall>e\<in>set es. entry_ok e"
    and eq: "map fst (byName secs) = map se_name es"
    and src: "\<forall>m\<in>fst ` set (byName secs).
                \<exists>s. (m, s) \<in> set refs \<and> getInlineable doc (Some s) = Some False"
    unfolding names_inv_def by blast+
  have 1: "name \<notin> fst ` set (byName secs)"
  proof
    assume "name \<in> fst ` set (byName secs)"
    with src obtain s where s: "(name, s) \<in> set refs" "getInlineable doc (Some s) = Some False"
      by blast
    from assms(2) s(1) assms(3) have "s = schema" by (rule eq_key_imp_eq_value)
    with s(2) assms(4) show False by simp
  qed
  have names: "set (section_names secs) = fst ` set (byName secs)"
  proof -
    have "set (section_names secs) = set (map se_name es)" using n by (rule mset_eq_setD)
    also have "\<dots> = set (map fst (byName secs))" using eq by simp
    finally show ?thesis by simp
  qed
  have 3: "kind_text k @ ''-'' @ name \<notin> set (section_ids secs)" for k
  proof
    assume "kind_text k @ ''-'' @ name \<in> set (section_ids secs)"
    moreover have "set (section_ids secs) = set (map se_id es)" using i by (rule mset_eq_setD)
    ultimately obtain e where e: "e \<in> set es" "se_id e = kind_text k @ ''-'' @ name" by auto
    with ok have "kind_text (se_kind e) @ ''-'' @ se_name e = kind_text k @ ''-'' @ name"
      by (simp add: entry_ok_def)
    then have "se_name e = name" using id_injective by blast
    with e(1) have "name \<in> set (map se_name es)" by auto
    with eq 1 show False by (metis set_map)
  qed
  from 1 names 3 show ?thesis by simp
qed

lemma refs1_built: "buildSectionsFromRefs lc0 (doc_of refs1) refs1 = Some secs1"
  by (simp add: classifier_unfold model_defs refs1_def secs1_def object_of_def enum_only_def
      lc0_def Let_def)

theorem section_ids_unique_witness:
  "buildSectionsFromRefs lc0 (doc_of refs1) refs1 = Some secs1
   \<and> section_ids secs1 = [''enum-Color'', ''object-Obj'']
   \<and> distinct (section_ids secs1)
   \<and> distinct (section_names secs1)"
  using refs1_built section_ids_unique [OF refs1_built]
  by (simp add: section_ids_def secs1_def)

theorem inlineable_never_a_section_witness:
  "buildSectionsFromRefs lc0 (doc_of refs1) refs1 = Some secs1
   \<and> distinct (map fst refs1)
   \<and> (''Inl'', Schema None None (Some ''object'') None (Some [(''a'', typed ''string'')]) None None
                 None None None None (Some True) None None) \<in> set refs1
   \<and> getInlineable (doc_of refs1)
        (Some (Schema None None (Some ''object'') None (Some [(''a'', typed ''string'')]) None None
                 None None None None (Some True) None None)) = Some True
   \<and> ''Inl'' \<notin> fst ` set (byName secs1)
   \<and> ''Inl'' \<notin> set (section_names secs1)
   \<and> ''object-Inl'' \<notin> set (section_ids secs1)"
proof -
  have h2: "distinct (map fst refs1)" by (simp add: refs1_def)
  have h3: "(''Inl'', Schema None None (Some ''object'') None (Some [(''a'', typed ''string'')]) None None
                 None None None None (Some True) None None) \<in> set refs1"
    by (simp add: refs1_def)
  have h4: "getInlineable (doc_of refs1)
        (Some (Schema None None (Some ''object'') None (Some [(''a'', typed ''string'')]) None None
                 None None None None (Some True) None None)) = Some True"
    by (simp add: getInlineable.simps)
  from inlineable_never_a_section [OF refs1_built h2 h3 h4]
  have "''Inl'' \<notin> fst ` set (byName secs1)" "''Inl'' \<notin> set (section_names secs1)"
    "kind_text Kind_object @ ''-'' @ ''Inl'' \<notin> set (section_ids secs1)"
    by blast+
  then show ?thesis using refs1_built h2 h3 h4 by simp
qed

subsection \<open>Array-of-union grouping\<close>

lemma getSchemaFromRef_nonempty:
  assumes "getSchemaFromRef doc r = Some d"
  shows "r \<noteq> []" and "last (split_on CHR ''/'' r) \<noteq> []"
  using assms by (auto simp: getSchemaFromRef_def Let_def split: if_splits)

lemma ref_node_fields:
  "ref (ref_node r) = Some r" "type (ref_node r) = None" "anyOf (ref_node r) = None"
  "oneOf (ref_node r) = None" "allOf (ref_node r) = None" "items (ref_node r) = None"
  "properties (ref_node r) = None" "enum_values (ref_node r) = None"
  by (simp_all add: ref_node_def)

lemma array_of_fields:
  "ref (array_of i) = None" "type (array_of i) = Some ''array''" "items (array_of i) = Some i"
  "anyOf (array_of i) = None" "oneOf (array_of i) = None" "allOf (array_of i) = None"
  by (simp_all add: array_of_def)

lemma any_of_fields:
  "ref (any_of bs) = None" "type (any_of bs) = None" "items (any_of bs) = None"
  "anyOf (any_of bs) = Some bs" "oneOf (any_of bs) = None" "allOf (any_of bs) = None"
  by (simp_all add: any_of_def)

lemma typed_fields:
  "ref (typed t) = None" "type (typed t) = Some t" "items (typed t) = None"
  "anyOf (typed t) = None" "oneOf (typed t) = None" "allOf (typed t) = None"
  by (simp_all add: typed_def)

lemma resolveRef_ref_node:
  assumes "getSchemaFromRef doc r = Some d"
  shows "resolveRef doc (Some (ref_node r)) = Some d"
  using assms getSchemaFromRef_nonempty(1)[OF assms]
  by (simp add: resolveRef_def ref_node_fields truthy_def text_of_def)

lemma getUnionVariants_ref_node:
  assumes "getSchemaFromRef doc r = Some d" and "getUnionVariants doc (Some d) = Some []"
  shows "getUnionVariants doc (Some (ref_node r)) = Some []"
  by (subst getUnionVariants.simps)
     (simp add: resolveRef_ref_node[OF assms(1)] assms(2) ref_node_fields orElse_def)

lemma getEnumValues_ref_node:
  assumes "getSchemaFromRef doc r = Some d"
  shows "getEnumValues doc (Some (ref_node r)) = getEnumValues doc (Some d)"
  using getSchemaFromRef_nonempty(1)[OF assms]
  by (subst getEnumValues.simps)
     (simp add: resolveRef_ref_node[OF assms] ref_node_fields truthy_def)

lemma getRefNameDeep_ref_node:
  assumes "r \<noteq> []"
  shows "getRefNameDeep (Some (ref_node r)) = Some (last (split_on CHR ''/'' r))"
  using assms by (simp add: ref_node_fields truthy_def getRefName_def)

lemma group_variant_of_ref:
  assumes "getSchemaFromRef doc r = Some d" and "getEnumValues doc (Some d) = Some vs"
  shows "\<exists>tc. Option.bind (getVariantLabel doc (ref_node r)) (\<lambda>l.
               Option.bind (getTypeClass doc (Some (ref_node r))) (\<lambda>tc.
                 Some (ParameterUnionVariant l False
                         (sectionIdOf names (getRefNameDeep (Some (ref_node r)))) tc None)))
             = Some (ParameterUnionVariant (last (split_on CHR ''/'' r)) False
                       (map_option ref_id (map_of names (last (split_on CHR ''/'' r)))) tc None)"
proof -
  note ne = getSchemaFromRef_nonempty[OF assms(1)]
  have ev: "getEnumValues doc (Some (ref_node r)) = Some vs"
    using getEnumValues_ref_node[OF assms(1)] assms(2) by simp
  have deep: "getRefNameDeep (Some (ref_node r)) = Some (last (split_on CHR ''/'' r))"
    by (rule getRefNameDeep_ref_node[OF ne(1)])
  have l: "getVariantLabel doc (ref_node r) = Some (last (split_on CHR ''/'' r))"
    unfolding getVariantLabel_def deep ev using ne(2) by (simp add: truthy_def text_of_def)
  have "\<exists>tc. getTypeClass doc (Some (ref_node r)) = Some tc"
    by (simp add: getTypeClass_def ev Let_def del: getTypeLabel.simps)
  then obtain tc where tc: "getTypeClass doc (Some (ref_node r)) = Some tc" ..
  show ?thesis
    unfolding l tc deep using ne(2) by (simp add: sectionIdOf_def truthy_def text_of_def)
qed


lemma getUnionVariants_union_of_refs:
  assumes "getUnionVariants doc (Some (ref_node rX)) = Some []"
    and "getUnionVariants doc (Some (ref_node rY)) = Some []"
  shows "getUnionVariants doc (Some (any_of [ref_node rX, ref_node rY]))
           = Some [ref_node rX, ref_node rY]"
  by (subst getUnionVariants.simps)
     (simp add: any_of_fields truthy_def orElse_def ref_node_fields assms)

lemma getUnionVariants_array_of: "getUnionVariants doc (Some (array_of i)) = Some []"
  by (subst getUnionVariants.simps) (simp add: array_of_fields truthy_def orElse_def)

lemma getUnionVariants_nullable_array:
  "getUnionVariants doc (Some (any_of [array_of i, typed ''null''])) = Some [array_of i]"
  by (subst getUnionVariants.simps)
     (simp add: any_of_fields typed_fields array_of_fields truthy_def orElse_def
        getUnionVariants_array_of)

text \<open>
  C2 (amended). Let \<open>X\<close> and \<open>Y\<close> be named schemas that are not unions themselves and
  whose enum values are derived. For the array whose items is \<open>anyOf [X, Y]\<close>,
  \<open>expandUnionVariantEntries\<close> yields exactly one entry, not marked array, with the
  label \<open>array of\<close>, the type class \<open>object\<close> and a group of two variants labelled
  \<open>X\<close> and \<open>Y\<close>. For a property that is a union whose only branch besides \<open>null\<close>
  is that array, \<open>buildUnionVariants\<close> yields exactly one variant with these fields.
\<close>

theorem array_of_union_grouped:
  assumes "getSchemaFromRef doc rX = Some dX" and "last (split_on CHR ''/'' rX) = X"
    and "getUnionVariants doc (Some dX) = Some []" and "getEnumValues doc (Some dX) = Some vX"
    and "getSchemaFromRef doc rY = Some dY" and "last (split_on CHR ''/'' rY) = Y"
    and "getUnionVariants doc (Some dY) = Some []" and "getEnumValues doc (Some dY) = Some vY"
  shows "\<exists>gX gY.
           label gX = X \<and> label gY = Y \<and> \<not> array gX \<and> \<not> array gY
           \<and> expandUnionVariantEntries doc (array_of (any_of [ref_node rX, ref_node rY])) secs
               = Some [\<lparr>entry_schema = array_of (any_of [ref_node rX, ref_node rY]),
                        entry_array = False, labelOverride = Some ''array of'',
                        typeClassOverride = Some ''object'',
                        entry_groupVariants = Some [gX, gY]\<rparr>]
           \<and> buildUnionVariants doc
                 (any_of [array_of (any_of [ref_node rX, ref_node rY]), typed ''null'']) secs
               = Some [ParameterUnionVariant ''array of'' False None ''object'' (Some [gX, gY])]"
proof -
  let ?items = "any_of [ref_node rX, ref_node rY]"
  let ?arr = "array_of ?items"
  from group_variant_of_ref[OF assms(1,4), of "byName secs"] obtain tX
    where gX: "Option.bind (getVariantLabel doc (ref_node rX)) (\<lambda>l.
               Option.bind (getTypeClass doc (Some (ref_node rX))) (\<lambda>tc.
                 Some (ParameterUnionVariant l False
                         (sectionIdOf (byName secs) (getRefNameDeep (Some (ref_node rX)))) tc None)))
             = Some (ParameterUnionVariant X False (map_option ref_id (map_of (byName secs) X)) tX None)"
    unfolding assms(2) by blast
  from group_variant_of_ref[OF assms(5,8), of "byName secs"] obtain tY
    where gY: "Option.bind (getVariantLabel doc (ref_node rY)) (\<lambda>l.
               Option.bind (getTypeClass doc (Some (ref_node rY))) (\<lambda>tc.
                 Some (ParameterUnionVariant l False
                         (sectionIdOf (byName secs) (getRefNameDeep (Some (ref_node rY)))) tc None)))
             = Some (ParameterUnionVariant Y False (map_option ref_id (map_of (byName secs) Y)) tY None)"
    unfolding assms(6) by blast
  let ?gX = "ParameterUnionVariant X False (map_option ref_id (map_of (byName secs) X)) tX None"
  let ?gY = "ParameterUnionVariant Y False (map_option ref_id (map_of (byName secs) Y)) tY None"
  have iv: "getUnionVariants doc (Some ?items) = Some [ref_node rX, ref_node rY]"
    by (rule getUnionVariants_union_of_refs)
       (rule getUnionVariants_ref_node[OF assms(1,3)], rule getUnionVariants_ref_node[OF assms(5,7)])
  have arr: "resolveRef doc (Some ?arr) = Some ?arr" "type ?arr = Some ''array''"
    "items ?arr = Some ?items"
    by (simp_all add: array_of_fields resolveRef_def truthy_def)
  have expand: "expandUnionVariantEntries doc ?arr secs
               = Some [\<lparr>entry_schema = ?arr, entry_array = False, labelOverride = Some ''array of'',
                        typeClassOverride = Some ''object'',
                        entry_groupVariants = Some [?gX, ?gY]\<rparr>]"
    by (simp add: expandUnionVariantEntries_def arr Let_def iv gX gY
             del: getRefNameDeep.simps getTypeLabel.simps)
  have deep: "getRefNameDeep (Some ?arr) = None"
    by (simp add: array_of_fields any_of_fields truthy_def)
  have build: "buildUnionVariants doc (any_of [?arr, typed ''null'']) secs
               = Some [ParameterUnionVariant ''array of'' False None ''object'' (Some [?gX, ?gY])]"
    unfolding buildUnionVariants_def getUnionVariants_nullable_array
    by (simp add: expand variantOfEntry_def deep sectionIdOf_def truthy_def Let_def
             del: getRefNameDeep.simps)
  show ?thesis using expand build
    by (intro exI[of _ ?gX] exI[of _ ?gY]) simp
qed

text \<open>
  A property that is the array itself, not a union, has no union variants: the
  variant list is empty.
\<close>

theorem array_of_union_counterexample:
  "buildUnionVariants doc2
     (array_of (any_of [ref_node ''#/components/schemas/X'', ref_node ''#/components/schemas/Y'']))
     no_sections = Some []"
  by (simp add: buildUnionVariants_def getUnionVariants_array_of)

theorem array_of_union_grouped_witness:
  "getSchemaFromRef doc2 ''#/components/schemas/X'' = Some (object_of [(''a'', typed ''string'')])
   \<and> getSchemaFromRef doc2 ''#/components/schemas/Y'' = Some (typed ''string'')
   \<and> getUnionVariants doc2 (Some (object_of [(''a'', typed ''string'')])) = Some []
   \<and> getUnionVariants doc2 (Some (typed ''string'')) = Some []
   \<and> getEnumValues doc2 (Some (object_of [(''a'', typed ''string'')])) = Some []
   \<and> getEnumValues doc2 (Some (typed ''string'')) = Some []
   \<and> buildUnionVariants doc2
        (any_of [array_of (any_of [ref_node ''#/components/schemas/X'',
                                   ref_node ''#/components/schemas/Y'']), typed ''null''])
        no_sections
      = Some [ParameterUnionVariant ''array of'' False None ''object''
                (Some [ParameterUnionVariant ''X'' False None ''object'' None,
                       ParameterUnionVariant ''Y'' False None ''object'' None])]"
proof -
  have h1: "getSchemaFromRef doc2 ''#/components/schemas/X'' = Some (object_of [(''a'', typed ''string'')])"
    by (simp add: model_defs doc2_def)
  have h2: "last (split_on CHR ''/'' ''#/components/schemas/X'') = ''X''" by simp
  have h3: "getUnionVariants doc2 (Some (object_of [(''a'', typed ''string'')])) = Some []"
    by (simp add: getUnionVariants.simps model_defs object_of_def)
  have h4: "getEnumValues doc2 (Some (object_of [(''a'', typed ''string'')])) = Some []"
    by (simp add: getEnumValues.simps model_defs object_of_def)
  have h5: "getSchemaFromRef doc2 ''#/components/schemas/Y'' = Some (typed ''string'')"
    by (simp add: model_defs doc2_def)
  have h6: "last (split_on CHR ''/'' ''#/components/schemas/Y'') = ''Y''" by simp
  have h7: "getUnionVariants doc2 (Some (typed ''string'')) = Some []"
    by (simp add: getUnionVariants.simps model_defs)
  have h8: "getEnumValues doc2 (Some (typed ''string'')) = Some []"
    by (simp add: getEnumValues.simps model_defs)
  have e: "buildUnionVariants doc2
        (any_of [array_of (any_of [ref_node ''#/components/schemas/X'',
                                   ref_node ''#/components/schemas/Y'']), typed ''null''])
        no_sections
      = Some [ParameterUnionVariant ''array of'' False None ''object''
                (Some [ParameterUnionVariant ''X'' False None ''object'' None,
                       ParameterUnionVariant ''Y'' False None ''object'' None])]"
    by (simp add: classifier_unfold model_defs doc2_def object_of_def array_of_def any_of_def
        no_sections_def Let_def)
  from array_of_union_grouped [OF h1 h2 h3 h4 h5 h6 h7 h8, of no_sections]
  show ?thesis using h1 h3 h4 h5 h7 h8 e by blast
qed

subsection \<open>Reference collector\<close>

lemma entries_ok_mono: "entries_ok doc K ext \<Longrightarrow> K \<subseteq> K' \<Longrightarrow> entries_ok doc K' ext"
  unfolding entries_ok_def by blast

lemma entries_ok_append:
  "entries_ok doc K (e1 @ e2) \<longleftrightarrow> entries_ok doc K e1 \<and> entries_ok doc K e2"
  unfolding entries_ok_def by (simp only: set_append ball_Un)

lemma ext_ok_refl: "ext_ok doc acc acc"
  unfolding ext_ok_def entries_ok_def by simp

lemma ext_ok_keys: "ext_ok doc acc acc' \<Longrightarrow> fst ` set acc \<subseteq> fst ` set acc'"
  unfolding ext_ok_def by auto

lemma ext_ok_trans:
  assumes "ext_ok doc a b" and "ext_ok doc b c"
  shows "ext_ok doc a c"
proof -
  from assms(1) obtain e1 where 1: "b = a @ e1"
    "distinct (map fst a) \<longrightarrow> distinct (map fst b)" "entries_ok doc (fst ` set b) e1"
    unfolding ext_ok_def by blast
  from assms(2) obtain e2 where 2: "c = b @ e2"
    "distinct (map fst b) \<longrightarrow> distinct (map fst c)" "entries_ok doc (fst ` set c) e2"
    unfolding ext_ok_def by blast
  have "fst ` set b \<subseteq> fst ` set c" using 2(1) by auto
  with 1(3) have "entries_ok doc (fst ` set c) e1" by (rule entries_ok_mono)
  with 2(3) have "entries_ok doc (fst ` set c) (e1 @ e2)" by (simp add: entries_ok_append)
  moreover have "c = a @ (e1 @ e2)" using 1(1) 2(1) by simp
  ultimately show ?thesis using 1(2) 2(2) unfolding ext_ok_def by blast
qed

lemma foldM_collect_post:
  assumes "\<And>x a a'. x \<in> set xs \<Longrightarrow> g x a = Some a' \<Longrightarrow> collect_post doc (Some x) a a'"
    and "foldM g xs a = Some a'"
  shows "ext_ok doc a a' \<and> (\<forall>x\<in>set xs. \<forall>n. refers_to x n \<longrightarrow> n \<in> fst ` set a')"
  using assms
proof (induction xs arbitrary: a)
  case Nil
  then show ?case by (simp add: ext_ok_refl)
next
  case (Cons x xs)
  from Cons.prems(2) obtain a1 where a1: "g x a = Some a1" and rest: "foldM g xs a1 = Some a'"
    by (auto dest: bind_eq_SomeD)
  have p1: "collect_post doc (Some x) a a1" using Cons.prems(1) a1 by simp
  have ih: "ext_ok doc a1 a' \<and> (\<forall>x\<in>set xs. \<forall>n. refers_to x n \<longrightarrow> n \<in> fst ` set a')"
    using Cons.IH[OF _ rest] Cons.prems(1) by simp
  from p1 have e1: "ext_ok doc a a1" and v1: "\<forall>n. refers_to x n \<longrightarrow> n \<in> fst ` set a1"
    unfolding collect_post_def by simp_all
  from ih have "fst ` set a1 \<subseteq> fst ` set a'" using ext_ok_keys by blast
  with v1 have "\<forall>n. refers_to x n \<longrightarrow> n \<in> fst ` set a'" by blast
  with ih ext_ok_trans[OF e1] show ?case by simp
qed

lemma getSchemaFromRef_lookup:
  assumes "last (split_on CHR ''/'' r) \<noteq> []"
  shows "lookup_schema doc (last (split_on CHR ''/'' r)) = Some t \<Longrightarrow> getSchemaFromRef doc r = Some t"
    and "lookup_schema doc (last (split_on CHR ''/'' r)) = None \<Longrightarrow>
           getSchemaFromRef doc r = None \<or> getSchemaFromRef doc r = Some inherited_member"
  using assms
  by (auto simp: getSchemaFromRef_def lookup_schema_def Let_def split: option.splits)

lemma collectRefSchemas_inherited_member:
  "collectRefSchemas doc (Some inherited_member) acc = Some acc"
  by (subst collectRefSchemas.simps) (simp add: inherited_member_def truthy_def)

lemma property_refers_child:
  assumes "property_refers s n"
  obtains ps c where "\<not> truthy (ref s)" "properties s = Some ps" "c \<in> set (map snd ps)" "refers_to c n"
proof -
  from assms have nr: "\<not> truthy (ref s)" by (simp add: property_refers_def)
  from assms obtain ps where ps: "properties s = Some ps" "list_ex (\<lambda>(p, c). refers_to c n) ps"
    by (cases "properties s") (simp_all add: property_refers_def)
  from ps(2) obtain p c where "(p, c) \<in> set ps" "refers_to c n"
    unfolding list_ex_iff by blast
  then have "c \<in> set (map snd ps)" by force
  with nr ps(1) \<open>refers_to c n\<close> show ?thesis using that by blast
qed


lemma collectRefSchemas_post:
  "collectRefSchemas doc so acc = Some acc' \<Longrightarrow> collect_post doc so acc acc'"
proof (induction rule: collectRefSchemas.raw_induct[rotated 1, consumes 1, case_names step])
  case (step collect doc so acc y)
  note 1 = step
  show ?case
  proof (cases so)
    case None
    with 1(2) show ?thesis by (simp add: collect_post_def ext_ok_refl)
  next
    case (Some s)
    show ?thesis
    proof (cases "truthy (ref s)")
      case True
      then obtain r where r: "ref s = Some r" "r \<noteq> []"
        by (cases "ref s") (simp_all add: truthy_def)
      define nm where "nm = last (split_on CHR ''/'' r)"
      have name: "getRefName (Some s) = Some nm" by (simp add: getRefName_def r nm_def)
      define resolved where "resolved = (case resolveRef doc (Some s) of None \<Rightarrow> s | Some t \<Rightarrow> t)"
      have norefs: "\<not> property_refers s n" for n using True by (simp add: property_refers_def)
      have refers: "refers_to s n \<longleftrightarrow> n = nm \<and> nm \<noteq> []" for n
        using True name by (auto simp: refers_to_def)
      show ?thesis
      proof (cases "nm \<noteq> [] \<and> nm \<notin> fst ` set acc")
        case False
        with 1(2) Some True name have "y = acc"
          by (auto simp: Let_def truthy_def text_of_def split: if_splits)
        with False show ?thesis
          unfolding collect_post_def Some by (auto simp: ext_ok_refl refers norefs)
      next
        case fresh: True
        with 1(2) Some True name have call: "collect doc (Some resolved) (acc @ [(nm, resolved)]) = Some y"
          by (auto simp: Let_def truthy_def text_of_def resolved_def split: if_splits)
        from 1(1)[OF call] have post: "collect_post doc (Some resolved) (acc @ [(nm, resolved)]) y" .
        then obtain ext where ext: "y = (acc @ [(nm, resolved)]) @ ext"
          "distinct (map fst (acc @ [(nm, resolved)])) \<longrightarrow> distinct (map fst y)"
          "entries_ok doc (fst ` set y) ext"
          unfolding collect_post_def ext_ok_def by blast
        have cov: "\<forall>m. property_refers resolved m \<longrightarrow> m \<in> fst ` set y"
          using post unfolding collect_post_def by blast
        have val: "lookup_schema doc nm = Some t \<longrightarrow> resolved = t" for t
        proof
          assume "lookup_schema doc nm = Some t"
          with fresh have "getSchemaFromRef doc r = Some t"
            unfolding nm_def by (intro getSchemaFromRef_lookup(1)) simp_all
          with True r show "resolved = t"
            by (simp add: resolved_def resolveRef_def text_of_def)
        qed
        have "entries_ok doc (fst ` set y) ((nm, resolved) # ext)"
          using ext(3) cov val unfolding entries_ok_def by simp
        moreover have "y = acc @ ((nm, resolved) # ext)" using ext(1) by simp
        moreover have "distinct (map fst acc) \<longrightarrow> distinct (map fst y)"
          using ext(2) fresh by simp
        ultimately have "ext_ok doc acc y" unfolding ext_ok_def by blast
        moreover have "nm \<in> fst ` set y" using ext(1) by force
        ultimately show ?thesis
          unfolding collect_post_def Some by (auto simp: refers norefs)
      qed
    next
      case False
      have norefers: "\<not> refers_to s n" for n using False by (simp add: refers_to_def)
      from 1(2) Some False obtain a1 a2 a3 a4 where
        s1: "(case properties s of None \<Rightarrow> Some acc
              | Some ps \<Rightarrow> foldM (\<lambda>prop. collect doc (Some prop)) (map snd ps) acc) = Some a1"
        and s2: "(case items s of None \<Rightarrow> Some a1 | Some i \<Rightarrow> collect doc (Some i) a1) = Some a2"
        and s3: "foldM (\<lambda>variant. collect doc (Some variant))
                   (case anyOf s of None \<Rightarrow> [] | Some bs \<Rightarrow> bs) a2 = Some a3"
        and s4: "foldM (\<lambda>variant. collect doc (Some variant))
                   (case oneOf s of None \<Rightarrow> [] | Some bs \<Rightarrow> bs) a3 = Some a4"
        and s5: "foldM (\<lambda>variant. collect doc (Some variant))
                   (case allOf s of None \<Rightarrow> [] | Some bs \<Rightarrow> bs) a4 = Some y"
        by (auto dest!: bind_eq_SomeD)
      have fold: "ext_ok doc a a' \<and> (\<forall>x\<in>set xs. \<forall>n. refers_to x n \<longrightarrow> n \<in> fst ` set a')"
        if "foldM (\<lambda>x. collect doc (Some x)) xs a = Some a'" for xs a a'
        by (rule foldM_collect_post[OF _ that]) (rule 1(1))
      have e1: "ext_ok doc acc a1"
        and v1: "\<forall>ps. properties s = Some ps \<longrightarrow>
                   (\<forall>c\<in>set (map snd ps). \<forall>n. refers_to c n \<longrightarrow> n \<in> fst ` set a1)"
        using s1 fold by (cases "properties s"; simp add: ext_ok_refl; blast)+
      have e2: "ext_ok doc a1 a2"
        using s2 1(1) by (cases "items s") (auto simp: ext_ok_refl collect_post_def)
      have e3: "ext_ok doc a2 a3" using fold[OF s3] by simp
      have e4: "ext_ok doc a3 a4" using fold[OF s4] by simp
      have e5: "ext_ok doc a4 y" using fold[OF s5] by simp
      have e15: "ext_ok doc a1 y" by (intro ext_ok_trans[OF e2] ext_ok_trans[OF e3] ext_ok_trans[OF e4] e5)
      have all: "ext_ok doc acc y" by (rule ext_ok_trans[OF e1 e15])
      have "n \<in> fst ` set y" if "property_refers s n" for n
      proof -
        from that obtain ps c where "properties s = Some ps" "c \<in> set (map snd ps)" "refers_to c n"
          by (rule property_refers_child)
        with v1 have "n \<in> fst ` set a1" by blast
        with ext_ok_keys[OF e15] show ?thesis by blast
      qed
      with all show ?thesis unfolding collect_post_def Some by (auto simp: norefers)
    qed
  qed
qed


lemma collectRefSchemas_keys:
  "collectRefSchemas doc so acc = Some acc' \<Longrightarrow> fst ` set acc \<subseteq> fst ` set acc'"
  using collectRefSchemas_post[of doc so acc acc'] ext_ok_keys
  unfolding collect_post_def by blast

lemma foldM_total:
  assumes "\<And>x a. x \<in> set xs \<Longrightarrow> K \<subseteq> fst ` set a \<Longrightarrow> \<exists>a'. g x a = Some a'"
    and "\<And>x a a'. g x a = Some a' \<Longrightarrow> fst ` set a \<subseteq> fst ` set a'"
    and "K \<subseteq> fst ` set a"
  shows "\<exists>a'. foldM g xs a = Some a' \<and> K \<subseteq> fst ` set a'"
  using assms
proof (induction xs arbitrary: a)
  case Nil
  then show ?case by simp
next
  case (Cons x xs)
  have "\<exists>a'. g x a = Some a'" using Cons.prems(3) by (intro Cons.prems(1)) simp_all
  then obtain a1 where a1: "g x a = Some a1" ..
  from Cons.prems(2)[OF a1] Cons.prems(3) have k: "K \<subseteq> fst ` set a1" by (rule order_trans[rotated])
  have "\<exists>a'. foldM g xs a1 = Some a' \<and> K \<subseteq> fst ` set a'"
  proof (rule Cons.IH[OF _ _ k])
    show "\<exists>a'. g y b = Some a'" if "y \<in> set xs" "K \<subseteq> fst ` set b" for y b
      using that by (intro Cons.prems(1)) simp_all
    show "fst ` set b \<subseteq> fst ` set b'" if "g y b = Some b'" for y b b'
      using that by (rule Cons.prems(2))
  qed
  then obtain a' where "foldM g xs a1 = Some a'" "K \<subseteq> fst ` set a'" by blast
  with a1 show ?case by simp
qed

lemma size_child:
  "properties s = Some ps \<Longrightarrow> c \<in> set (map snd ps) \<Longrightarrow> size c < size s"
  "items s = Some c \<Longrightarrow> size c < size s"
  "anyOf s = Some bs \<Longrightarrow> c \<in> set bs \<Longrightarrow> size c < size s"
  "oneOf s = Some bs \<Longrightarrow> c \<in> set bs \<Longrightarrow> size c < size s"
  "allOf s = Some bs \<Longrightarrow> c \<in> set bs \<Longrightarrow> size c < size s"
proof -
  have l: "size c < Suc (size_list size bs)" if "c \<in> set bs" for bs
    using that by (simp add: less_Suc_eq_le size_list_estimation')
  have p: "size c < Suc (size_list (size_prod (\<lambda>x. 0) size) ps)" if "c \<in> set (map snd ps)" for ps
    using that
  proof (induction ps)
    case Nil
    then show ?case by simp
  next
    case (Cons q qs)
    show ?case
    proof (cases "c = snd q")
      case True
      then show ?thesis by (cases q) simp
    next
      case False
      with Cons.prems have "c \<in> set (map snd qs)" by auto
      from Cons.IH[OF this] show ?thesis by simp
    qed
  qed
  show "properties s = Some ps \<Longrightarrow> c \<in> set (map snd ps) \<Longrightarrow> size c < size s"
    using p[of ps] by (cases s) auto
  show "items s = Some c \<Longrightarrow> size c < size s" by (cases s) auto
  show "anyOf s = Some bs \<Longrightarrow> c \<in> set bs \<Longrightarrow> size c < size s"
    using l[of bs] by (cases s) auto
  show "oneOf s = Some bs \<Longrightarrow> c \<in> set bs \<Longrightarrow> size c < size s"
    using l[of bs] by (cases s) auto
  show "allOf s = Some bs \<Longrightarrow> c \<in> set bs \<Longrightarrow> size c < size s"
    using l[of bs] by (cases s) auto
qed

lemma finite_named: "finite (dom (lookup_schema doc))"
proof (cases "components doc")
  case None
  then have "lookup_schema doc = Map.empty" by (simp add: lookup_schema_def fun_eq_iff)
  then show ?thesis by simp
next
  case (Some c)
  show ?thesis
  proof (cases "schemas c")
    case None
    with Some have "lookup_schema doc = Map.empty" by (simp add: lookup_schema_def fun_eq_iff)
    then show ?thesis by simp
  next
    case (Some ss)
    with \<open>components doc = Some c\<close> have "lookup_schema doc = map_of ss"
      by (simp add: lookup_schema_def fun_eq_iff)
    then show ?thesis by (simp add: finite_dom_map_of)
  qed
qed

lemma unseen_mono: "fst ` set acc \<subseteq> fst ` set a \<Longrightarrow> unseen doc a \<le> unseen doc acc"
  unfolding unseen_def
proof (rule card_mono)
  show "finite (dom (lookup_schema doc) - fst ` set acc)" by (simp add: finite_named)
  show "fst ` set acc \<subseteq> fst ` set a \<Longrightarrow>
        dom (lookup_schema doc) - fst ` set a \<subseteq> dom (lookup_schema doc) - fst ` set acc"
    by blast
qed

lemma unseen_less:
  assumes "lookup_schema doc nm = Some t" and "nm \<notin> fst ` set acc"
  shows "unseen doc (acc @ [(nm, x)]) < unseen doc acc"
  unfolding unseen_def
proof (rule psubset_card_mono)
  show "finite (dom (lookup_schema doc) - fst ` set acc)" by (simp add: finite_named)
  have "nm \<in> dom (lookup_schema doc) - fst ` set acc" using assms by blast
  moreover have "nm \<notin> dom (lookup_schema doc) - fst ` set (acc @ [(nm, x)])" by simp
  moreover have "dom (lookup_schema doc) - fst ` set (acc @ [(nm, x)])
                   \<subseteq> dom (lookup_schema doc) - fst ` set acc" by auto
  ultimately show "dom (lookup_schema doc) - fst ` set (acc @ [(nm, x)])
                     \<subset> dom (lookup_schema doc) - fst ` set acc" by blast
qed


lemma collectRefSchemas_ref_seen:
  assumes "truthy (ref s)" and "getRefName (Some s) = Some nm" and "nm \<in> fst ` set acc"
  shows "collectRefSchemas doc (Some s) acc = Some acc"
  using assms by (subst collectRefSchemas.simps) (simp add: Let_def text_of_def)

lemma collectRefSchemas_total_Some:
  "\<exists>acc'. collectRefSchemas doc (Some s) acc = Some acc'"
proof (induction "(unseen doc acc, size s)" arbitrary: acc s
         rule: wf_induct_rule[OF wf_lex_prod[OF wf_less_than wf_less_than]])
  case 1
  note IH = 1
  have smaller: "\<exists>a'. collectRefSchemas doc (Some c) a = Some a'"
    if "size c < size s" "fst ` set acc \<subseteq> fst ` set a" for c a
  proof (rule IH)
    from unseen_mono[OF that(2), of doc] that(1)
    show "((unseen doc a, size c), (unseen doc acc, size s)) \<in> less_than <*lex*> less_than"
      by auto
  qed
  have fold: "\<exists>a'. foldM (\<lambda>x. collectRefSchemas doc (Some x)) xs a = Some a'
                   \<and> fst ` set acc \<subseteq> fst ` set a'"
    if "\<forall>c\<in>set xs. size c < size s" "fst ` set acc \<subseteq> fst ` set a" for xs a
  proof (rule foldM_total[OF _ _ that(2)])
    show "\<exists>a'. collectRefSchemas doc (Some x) b = Some a'"
      if "x \<in> set xs" "fst ` set acc \<subseteq> fst ` set b" for x b
      using that \<open>\<forall>c\<in>set xs. size c < size s\<close> by (intro smaller) simp_all
    show "fst ` set b \<subseteq> fst ` set b'" if "collectRefSchemas doc (Some x) b = Some b'" for x b b'
      using that by (rule collectRefSchemas_keys)
  qed
  show ?case
  proof (cases "truthy (ref s)")
    case True
    then obtain r where r: "ref s = Some r" "r \<noteq> []"
      by (cases "ref s") (simp_all add: truthy_def)
    define nm where "nm = last (split_on CHR ''/'' r)"
    have name: "getRefName (Some s) = Some nm" by (simp add: getRefName_def r nm_def)
    show ?thesis
    proof (cases "nm \<noteq> [] \<and> nm \<notin> fst ` set acc")
      case False
      then show ?thesis
        using True name
        by (subst collectRefSchemas.simps) (auto simp: Let_def truthy_def text_of_def)
    next
      case fresh: True
      show ?thesis
      proof (cases "lookup_schema doc nm")
        case None
        with fresh have "getSchemaFromRef doc r = None \<or> getSchemaFromRef doc r = Some inherited_member"
          unfolding nm_def by (intro getSchemaFromRef_lookup(2)) simp_all
        then have res: "resolveRef doc (Some s) = Some s \<or> resolveRef doc (Some s) = Some inherited_member"
          using True r by (auto simp: resolveRef_def text_of_def)
        have seen: "collectRefSchemas doc (Some s) (acc @ [(nm, s)]) = Some (acc @ [(nm, s)])"
          by (rule collectRefSchemas_ref_seen[OF True name]) simp
        from res show ?thesis
        proof
          assume "resolveRef doc (Some s) = Some s"
          with seen show ?thesis
            using True name fresh
            by (subst collectRefSchemas.simps) (simp add: Let_def truthy_def text_of_def)
        next
          assume "resolveRef doc (Some s) = Some inherited_member"
          then show ?thesis
            using True name fresh
            by (subst collectRefSchemas.simps)
               (simp add: Let_def truthy_def text_of_def collectRefSchemas_inherited_member)
        qed
      next
        case (Some t)
        with fresh have "getSchemaFromRef doc r = Some t"
          unfolding nm_def by (intro getSchemaFromRef_lookup(1)) simp_all
        then have res: "resolveRef doc (Some s) = Some t"
          using True r by (simp add: resolveRef_def text_of_def)
        have "\<exists>a'. collectRefSchemas doc (Some t) (acc @ [(nm, t)]) = Some a'"
        proof (rule IH)
          from unseen_less[OF Some, of acc t] fresh
          show "((unseen doc (acc @ [(nm, t)]), size t), (unseen doc acc, size s))
                  \<in> less_than <*lex*> less_than"
            by simp
        qed
        then show ?thesis
          using True name fresh res
          by (subst collectRefSchemas.simps) (simp add: Let_def truthy_def text_of_def)
      qed
    qed
  next
    case False
    have "\<exists>a1. (case properties s of None \<Rightarrow> Some acc
              | Some ps \<Rightarrow> foldM (\<lambda>prop. collectRefSchemas doc (Some prop)) (map snd ps) acc) = Some a1
            \<and> fst ` set acc \<subseteq> fst ` set a1"
    proof (cases "properties s")
      case None
      then show ?thesis by simp
    next
      case (Some ps)
      have "\<forall>c\<in>set (map snd ps). size c < size s" using size_child(1)[OF Some] by blast
      from fold[OF this, of acc] Some show ?thesis by simp
    qed
    then obtain a1 where s1: "(case properties s of None \<Rightarrow> Some acc
              | Some ps \<Rightarrow> foldM (\<lambda>prop. collectRefSchemas doc (Some prop)) (map snd ps) acc) = Some a1"
      and k1: "fst ` set acc \<subseteq> fst ` set a1" by blast
    have "\<exists>a2. (case items s of None \<Rightarrow> Some a1 | Some i \<Rightarrow> collectRefSchemas doc (Some i) a1) = Some a2
            \<and> fst ` set acc \<subseteq> fst ` set a2"
    proof (cases "items s")
      case None
      then show ?thesis using k1 by simp
    next
      case (Some i)
      from smaller[OF size_child(2)[OF Some] k1] obtain a2
        where "collectRefSchemas doc (Some i) a1 = Some a2" ..
      with collectRefSchemas_keys[OF this] k1 Some show ?thesis by auto
    qed
    then obtain a2 where s2: "(case items s of None \<Rightarrow> Some a1
              | Some i \<Rightarrow> collectRefSchemas doc (Some i) a1) = Some a2"
      and k2: "fst ` set acc \<subseteq> fst ` set a2" by blast
    have "\<forall>c\<in>set (case anyOf s of None \<Rightarrow> [] | Some bs \<Rightarrow> bs). size c < size s"
      using size_child(3)[of s] by (cases "anyOf s") auto
    from fold[OF this k2] obtain a3 where
      s3: "foldM (\<lambda>x. collectRefSchemas doc (Some x)) (case anyOf s of None \<Rightarrow> [] | Some bs \<Rightarrow> bs) a2 = Some a3"
      and k3: "fst ` set acc \<subseteq> fst ` set a3" by blast
    have "\<forall>c\<in>set (case oneOf s of None \<Rightarrow> [] | Some bs \<Rightarrow> bs). size c < size s"
      using size_child(4)[of s] by (cases "oneOf s") auto
    from fold[OF this k3] obtain a4 where
      s4: "foldM (\<lambda>x. collectRefSchemas doc (Some x)) (case oneOf s of None \<Rightarrow> [] | Some bs \<Rightarrow> bs) a3 = Some a4"
      and k4: "fst ` set acc \<subseteq> fst ` set a4" by blast
    have "\<forall>c\<in>set (case allOf s of None \<Rightarrow> [] | Some bs \<Rightarrow> bs). size c < size s"
      using size_child(5)[of s] by (cases "allOf s") auto
    from fold[OF this k4] obtain a5 where
      s5: "foldM (\<lambda>x. collectRefSchemas doc (Some x)) (case allOf s of None \<Rightarrow> [] | Some bs \<Rightarrow> bs) a4 = Some a5"
      by blast
    show ?thesis
      using False by (subst collectRefSchemas.simps) (simp add: s1 s2 s3 s4 s5)
  qed
qed

lemma collectRefSchemas_total: "\<exists>acc'. collectRefSchemas doc so acc = Some acc'"
proof (cases so)
  case None
  then show ?thesis by (subst collectRefSchemas.simps) simp
next
  case (Some s)
  then show ?thesis using collectRefSchemas_total_Some by simp
qed


lemma count_distinct_key:
  "distinct (map fst xs) \<Longrightarrow> k \<in> fst ` set xs \<Longrightarrow> length (filter (\<lambda>e. fst e = k) xs) = 1"
proof (induction xs)
  case Nil
  then show ?case by simp
next
  case (Cons x xs)
  show ?case
  proof (cases "fst x = k")
    case True
    with Cons.prems(1) have "k \<notin> fst ` set xs" by auto
    then have "filter (\<lambda>e. fst e = k) xs = []" by (auto simp: filter_empty_conv)
    with True show ?thesis by simp
  next
    case False
    with Cons show ?thesis by auto
  qed
qed

text \<open>
  C4. Collecting always terminates. In a document whose named schema \<open>A\<close> has a
  property that refers to the named schema \<open>B\<close>, which has a property that refers
  back to \<open>A\<close>, collecting from \<open>A\<close>, be it the definition of \<open>A\<close> or a reference
  to it, with an empty accumulator returns an accumulator that holds \<open>A\<close> exactly
  once and \<open>B\<close> exactly once, each with its definition.
\<close>

theorem collectRefSchemas_cycle_safe:
  assumes "lookup_schema doc A = Some dA" and "lookup_schema doc B = Some dB"
    and "property_refers dA B" and "property_refers dB A"
    and "root = dA \<or> refers_to root A"
  shows "(\<forall>so acc0. \<exists>acc. collectRefSchemas doc so acc0 = Some acc)
         \<and> (\<exists>acc. collectRefSchemas doc (Some root) [] = Some acc
                \<and> length (filter (\<lambda>e. fst e = A) acc) = 1
                \<and> length (filter (\<lambda>e. fst e = B) acc) = 1
                \<and> (A, dA) \<in> set acc \<and> (B, dB) \<in> set acc)"
proof -
  from collectRefSchemas_total obtain acc where acc: "collectRefSchemas doc (Some root) [] = Some acc"
    by blast
  from collectRefSchemas_post[OF acc]
  have d: "distinct (map fst acc)" and ok: "entries_ok doc (fst ` set acc) acc"
    and v: "\<forall>n. refers_to root n \<or> property_refers root n \<longrightarrow> n \<in> fst ` set acc"
    unfolding collect_post_def ext_ok_def by auto
  have entry: "(n, t) \<in> set acc \<and> (\<forall>m. property_refers t m \<longrightarrow> m \<in> fst ` set acc)"
    if "n \<in> fst ` set acc" "lookup_schema doc n = Some t" for n t
  proof -
    from that(1) obtain x where x: "(n, x) \<in> set acc" by force
    with ok that(2) have "x = t" "\<forall>m. property_refers x m \<longrightarrow> m \<in> fst ` set acc"
      unfolding entries_ok_def by blast+
    with x show ?thesis by simp
  qed
  have both: "A \<in> fst ` set acc \<and> B \<in> fst ` set acc"
  proof (cases "root = dA")
    case True
    with v assms(3) have b: "B \<in> fst ` set acc" by blast
    from entry[OF b assms(2)] assms(4) have "A \<in> fst ` set acc" by blast
    with b show ?thesis by simp
  next
    case False
    with assms(5) v have a: "A \<in> fst ` set acc" by blast
    from entry[OF a assms(1)] assms(3) have "B \<in> fst ` set acc" by blast
    with a show ?thesis by simp
  qed
  from both entry assms(1,2) have "(A, dA) \<in> set acc" "(B, dB) \<in> set acc" by blast+
  moreover from both d have "length (filter (\<lambda>e. fst e = A) acc) = 1"
    "length (filter (\<lambda>e. fst e = B) acc) = 1"
    by (simp_all add: count_distinct_key)
  ultimately show ?thesis using acc collectRefSchemas_total by blast
qed

theorem collectRefSchemas_cycle_safe_witness:
  "lookup_schema doc4 ''A'' = Some (object_of [(''b'', ref_node ''#/components/schemas/B'')])
   \<and> lookup_schema doc4 ''B'' = Some (object_of [(''a'', ref_node ''#/components/schemas/A'')])
   \<and> property_refers (object_of [(''b'', ref_node ''#/components/schemas/B'')]) ''B''
   \<and> property_refers (object_of [(''a'', ref_node ''#/components/schemas/A'')]) ''A''
   \<and> refers_to (ref_node ''#/components/schemas/A'') ''A''
   \<and> collectRefSchemas doc4 (Some (ref_node ''#/components/schemas/A'')) []
      = Some [(''A'', object_of [(''b'', ref_node ''#/components/schemas/B'')]),
              (''B'', object_of [(''a'', ref_node ''#/components/schemas/A'')])]
   \<and> (\<exists>acc. collectRefSchemas doc4 (Some (ref_node ''#/components/schemas/A'')) [] = Some acc
          \<and> length (filter (\<lambda>e. fst e = ''A'') acc) = 1
          \<and> length (filter (\<lambda>e. fst e = ''B'') acc) = 1)"
proof -
  have h1: "lookup_schema doc4 ''A'' = Some (object_of [(''b'', ref_node ''#/components/schemas/B'')])"
    by (simp add: lookup_schema_def doc4_def doc_of_def)
  have h2: "lookup_schema doc4 ''B'' = Some (object_of [(''a'', ref_node ''#/components/schemas/A'')])"
    by (simp add: lookup_schema_def doc4_def doc_of_def)
  have h3: "property_refers (object_of [(''b'', ref_node ''#/components/schemas/B'')]) ''B''"
    by (simp add: property_refers_def refers_to_def object_of_def ref_node_def truthy_def
        getRefName_def)
  have h4: "property_refers (object_of [(''a'', ref_node ''#/components/schemas/A'')]) ''A''"
    by (simp add: property_refers_def refers_to_def object_of_def ref_node_def truthy_def
        getRefName_def)
  have h5: "refers_to (ref_node ''#/components/schemas/A'') ''A''"
    by (simp add: refers_to_def ref_node_def truthy_def getRefName_def)
  have e: "collectRefSchemas doc4 (Some (ref_node ''#/components/schemas/A'')) []
      = Some [(''A'', object_of [(''b'', ref_node ''#/components/schemas/B'')]),
              (''B'', object_of [(''a'', ref_node ''#/components/schemas/A'')])]"
    by (simp add: collectRefSchemas.simps model_defs doc4_def object_of_def Let_def)
  from collectRefSchemas_cycle_safe [OF h1 h2 h3 h4 disjI2[OF h5]]
  show ?thesis using h1 h2 h3 h4 h5 e by blast
qed

subsection \<open>Parameter rows of the root schema\<close>

text \<open>
  What the two row builders read: \<open>buildParameterRows\<close> the \<open>properties\<close> field of
  the node it is given, \<open>buildInlineRows\<close> what \<open>getSchemaProperties\<close> finds, which
  follows a reference and enters the branches of \<open>allOf\<close>, \<open>anyOf\<close> and \<open>oneOf\<close>.
\<close>

lemma mapM_map:
  assumes "mapM f xs = Some ys" and "\<And>x y. x \<in> set xs \<Longrightarrow> f x = Some y \<Longrightarrow> g y = h x"
  shows "map g ys = map h xs"
  using assms
proof (induction xs arbitrary: ys)
  case Nil
  then show ?case by simp
next
  case (Cons x xs)
  from Cons.prems(1) obtain y ys' where y: "f x = Some y" and ys': "mapM f xs = Some ys'"
    and ys: "ys = y # ys'"
    by (auto dest!: bind_eq_SomeD)
  have "g y = h x" using Cons.prems(2)[of x y] y by simp
  moreover have "map g ys' = map h xs" using Cons.IH[OF ys'] Cons.prems(2) by simp
  ultimately show ?case using ys by simp
qed

lemma one_of_fields:
  "ref (one_of bs) = None" "type (one_of bs) = None" "items (one_of bs) = None"
  "anyOf (one_of bs) = None" "oneOf (one_of bs) = Some bs" "allOf (one_of bs) = None"
  "properties (one_of bs) = None"
  by (simp_all add: one_of_def)

lemma allOf_only_fields:
  "ref (allOf_only bs) = None" "type (allOf_only bs) = None" "items (allOf_only bs) = None"
  "anyOf (allOf_only bs) = None" "oneOf (allOf_only bs) = None" "allOf (allOf_only bs) = Some bs"
  "properties (allOf_only bs) = None"
  by (simp_all add: allOf_only_def)

lemma any_of_properties: "properties (any_of bs) = None"
  by (simp add: any_of_def)

lemma getSchemaProperties_object:
  assumes "\<not> truthy (ref b)" and "type b = Some ''object''" and "properties b = Some ps"
  shows "getSchemaProperties doc (Some b) = Some (Some ps)"
  using assms by (subst getSchemaProperties.simps) simp

lemma getSchemaProperties_wrapper:
  assumes "w \<in> {allOf_only (b # bs), any_of (b # bs), one_of (b # bs)}"
    and "\<not> truthy (ref b)" and "type b = Some ''object''" and "properties b = Some ps"
  shows "getSchemaProperties doc (Some w) = Some (Some ps)"
proof -
  note b = getSchemaProperties_object[OF assms(2-4), of doc]
  from assms(1) consider "w = allOf_only (b # bs)" | "w = any_of (b # bs)" | "w = one_of (b # bs)"
    by blast
  then show ?thesis
  proof cases
    case 1
    show ?thesis unfolding 1
      by (subst getSchemaProperties.simps) (simp add: allOf_only_fields truthy_def b found_def)
  next
    case 2
    show ?thesis unfolding 2
      by (subst getSchemaProperties.simps) (simp add: any_of_fields truthy_def b found_def)
  next
    case 3
    show ?thesis unfolding 3
      by (subst getSchemaProperties.simps) (simp add: one_of_fields truthy_def b found_def)
  qed
qed

lemma buildInlineRows_names:
  assumes "getSchemaProperties doc so = Some (Some ps)" and "buildInlineRows doc so secs = Some rows"
  shows "map row_name rows = map fst ps"
  using assms(2) unfolding buildInlineRows_def assms(1)
  apply (simp add: bind_eq_Some_conv)
  apply (erule exE, erule conjE)
  apply (erule mapM_map)
  apply (auto simp: bind_eq_Some_conv simp del: getTypeLabel.simps)
  done

lemma buildParameterRows_own:
  assumes "properties root = Some ps" and "buildParameterRows doc (Some root) secs = Some rows"
  shows "map param_name rows = map fst ps"
    and "map param_typeLabel rows = map (\<lambda>(n, prop). getTypeLabel doc (Some prop)) ps"
    and "map param_required rows
           = map (\<lambda>(n, prop). n \<in> set (case required root of Some q \<Rightarrow> q | None \<Rightarrow> [])) ps"
proof -
  from assms(2) have m: "mapM (\<lambda>(name, prop).
                        Option.bind (getEnumValues doc (Some prop)) (\<lambda>enumValues.
                        Option.bind (getEnumDescriptions doc (Some prop)) (\<lambda>enumDescriptions.
                        Option.bind (getInlineable doc (Some prop)) (\<lambda>inlineable.
                        Option.bind (buildUnionVariants doc prop secs) (\<lambda>unionVariants.
                        Option.bind (getDescription doc (Some prop)) (\<lambda>d.
                        Option.bind (isArraySchema doc (Some prop)) (\<lambda>a.
                        Option.bind (if inlineable then buildInlineRows doc (Some prop) secs
                                     else Some []) (\<lambda>inlineRows.
                          Some \<lparr>param_name = name,
                                param_typeLabel = getTypeLabel doc (Some prop),
                                param_typeClass = (if enumValues \<noteq> [] then ''enum''
                                                   else getTypeLabel doc (Some prop)),
                                param_description = d,
                                param_required = (name \<in> set (case required root of Some r \<Rightarrow> r | None \<Rightarrow> [])),
                                param_array = a,
                                param_enumValues = enumValues,
                                param_enumDescriptions = enumDescriptions,
                                param_literalValue = literalValueOf enumValues,
                                param_inlineable = inlineable,
                                param_inlineRows = inlineRows,
                                param_isUnion = (unionVariants \<noteq> []),
                                param_unionVariants = unionVariants,
                                param_typeLinkId =
                                  (if \<not> inlineable
                                   then sectionIdOf (byName secs) (getRefNameDeep (Some prop))
                                   else None)\<rparr>))))))))
                  ps = Some rows"
    unfolding buildParameterRows_def by (simp add: assms(1) Let_def del: getTypeLabel.simps getRefNameDeep.simps)
  show "map param_name rows = map fst ps"
    by (rule mapM_map[OF m]) (auto simp: bind_eq_Some_conv simp del: getTypeLabel.simps getRefNameDeep.simps)
  show "map param_typeLabel rows = map (\<lambda>(n, prop). getTypeLabel doc (Some prop)) ps"
    by (rule mapM_map[OF m]) (auto simp: bind_eq_Some_conv simp del: getTypeLabel.simps getRefNameDeep.simps)
  show "map param_required rows
           = map (\<lambda>(n, prop). n \<in> set (case required root of Some q \<Rightarrow> q | None \<Rightarrow> [])) ps"
    by (rule mapM_map[OF m])
       (cases "required root";
        auto simp: bind_eq_Some_conv simp del: getTypeLabel.simps getRefNameDeep.simps)
qed


lemma mapM_total:
  assumes "\<And>x. x \<in> set xs \<Longrightarrow> \<exists>y. f x = Some y"
  shows "\<exists>ys. mapM f xs = Some ys"
  using assms
proof (induction xs)
  case Nil
  then show ?case by simp
next
  case (Cons x xs)
  from Cons.prems[of x] obtain y where y: "f x = Some y" by auto
  from Cons.IH Cons.prems obtain ys where ys: "mapM f xs = Some ys" by auto
  show ?case by (simp add: y ys)
qed

lemma typed_classified:
  "getEnumValues doc (Some (typed t)) = Some []"
  "getEnumDescriptions doc (Some (typed t)) = Some []"
  "getInlineable doc (Some (typed t)) = Some False"
  "buildUnionVariants doc (typed t) secs = Some []"
  "getDescription doc (Some (typed t)) = Some []"
  "isArraySchema doc (Some (typed t)) = Some (t = ''array'')"
  by (simp_all add: classifier_unfold model_defs Let_def)

lemma buildParameterRows_typed:
  assumes "properties root = Some ps" and "\<forall>(n, prop) \<in> set ps. \<exists>t. prop = typed t"
  shows "\<exists>rows. buildParameterRows doc (Some root) secs = Some rows"
  unfolding buildParameterRows_def
  apply (simp add: assms(1) Let_def del: getTypeLabel.simps getRefNameDeep.simps)
  apply (rule mapM_total)
  using assms(2) apply (auto simp: typed_classified simp del: getTypeLabel.simps getRefNameDeep.simps)
  done


lemma getSchemaRequired_single_wrapper:
  assumes "w \<in> {allOf_only [b], any_of [b], one_of [b]}"
    and "\<not> truthy (ref b)" and "type b = Some ''object''"
  shows "getSchemaRequired doc (Some w) = Some (case required b of None \<Rightarrow> [] | Some r \<Rightarrow> r)"
proof -
  have b: "getSchemaRequired doc (Some b) = Some (case required b of None \<Rightarrow> [] | Some r \<Rightarrow> r)"
    using assms(2,3) by (subst getSchemaRequired.simps) simp
  from assms(1) consider "w = allOf_only [b]" | "w = any_of [b]" | "w = one_of [b]"
    by blast
  then show ?thesis
  proof cases
    case 1
    show ?thesis unfolding 1
      by (subst getSchemaRequired.simps) (simp add: allOf_only_fields truthy_def b split: option.splits)
  next
    case 2
    show ?thesis unfolding 2
      by (subst getSchemaRequired.simps) (simp add: any_of_fields truthy_def b split: option.splits)
  next
    case 3
    show ?thesis unfolding 3
      by (subst getSchemaRequired.simps) (simp add: one_of_fields truthy_def b split: option.splits)
  qed
qed

lemma buildInlineRows_typed:
  assumes "getSchemaProperties doc so = Some (Some ps)" and "getSchemaRequired doc so = Some req"
    and "\<forall>(n, prop) \<in> set ps. \<exists>t. prop = typed t"
  shows "\<exists>rows. buildInlineRows doc so secs = Some rows"
  unfolding buildInlineRows_def assms(1) assms(2)
  apply (simp add: Let_def del: getTypeLabel.simps)
  apply (rule mapM_total)
  using assms(3) apply (auto simp: typed_classified simp del: getTypeLabel.simps)
  done

text \<open>
  C10. When the root request schema is a reference node, or has no \<open>properties\<close> field
  of its own (an \<open>allOf\<close>, \<open>anyOf\<close> or \<open>oneOf\<close> wrapper has none),
  \<open>buildParameterRows\<close> returns the empty list, and \<open>buildReferenceIndex\<close> returns,
  whenever the sections are built, an index whose \<open>parameterRows\<close> is empty. When the
  root has a \<open>properties\<close> field, the rows are those of its own entries, in order: the
  same names, the type label of each entry, required by the root's own \<open>required\<close>
  list; and the rows are produced whenever every entry is a plain typed node. The
  inline-row builder differs on both counts. For a reference node it gives what it gives
  for the schema referred to, so the rows of the properties of that object. For a wrapper
  whose first branch is an object with properties it gives the rows of the properties of
  that branch, and it does return them when the branch is the only one and its entries
  are plain typed nodes.
\<close>

theorem buildParameterRows_root_only:
  "(root = ref_node r \<or> properties root = None \<longrightarrow>
      buildParameterRows doc (Some root) secs = Some []
      \<and> buildReferenceIndex lc doc (Some root)
          = map_option (\<lambda>built. \<lparr>parameterRows = [], sections = built\<rparr>)
              (Option.bind (collectRefsFromSchemas doc [Some root]) (buildSectionsFromRefs lc doc)))
   \<and> (properties root = Some ps \<and> buildParameterRows doc (Some root) secs = Some rows \<longrightarrow>
        map param_name rows = map fst ps
        \<and> map param_typeLabel rows = map (\<lambda>(n, prop). getTypeLabel doc (Some prop)) ps
        \<and> map param_required rows
            = map (\<lambda>(n, prop). n \<in> set (case required root of Some q \<Rightarrow> q | None \<Rightarrow> [])) ps)
   \<and> (properties root = Some ps \<and> (\<forall>(n, prop) \<in> set ps. \<exists>t. prop = typed t) \<longrightarrow>
        (\<exists>rows. buildParameterRows doc (Some root) secs = Some rows))
   \<and> (truthy (ref root) \<longrightarrow>
        buildInlineRows doc (Some root) secs = buildInlineRows doc (resolveRef doc (Some root)) secs)
   \<and> (truthy (ref root) \<and> resolveRef doc (Some root) = Some target \<and> \<not> truthy (ref target)
        \<and> type target = Some ''object'' \<and> properties target = Some tps \<longrightarrow>
        getSchemaProperties doc (Some root) = Some (Some tps)
        \<and> (\<forall>inlineRows. buildInlineRows doc (Some root) secs = Some inlineRows \<longrightarrow>
              map row_name inlineRows = map fst tps))
   \<and> (wrapper \<in> {allOf_only (b # bs), any_of (b # bs), one_of (b # bs)}
        \<and> \<not> truthy (ref b) \<and> type b = Some ''object'' \<and> properties b = Some bps \<longrightarrow>
        buildParameterRows doc (Some wrapper) secs = Some []
        \<and> getSchemaProperties doc (Some wrapper) = Some (Some bps)
        \<and> (\<forall>inlineRows. buildInlineRows doc (Some wrapper) secs = Some inlineRows \<longrightarrow>
              map row_name inlineRows = map fst bps))
   \<and> (wrapper \<in> {allOf_only [b], any_of [b], one_of [b]}
        \<and> \<not> truthy (ref b) \<and> type b = Some ''object'' \<and> properties b = Some bps
        \<and> (\<forall>(n, prop) \<in> set bps. \<exists>t. prop = typed t) \<longrightarrow>
        (\<exists>inlineRows. buildInlineRows doc (Some wrapper) secs = Some inlineRows
                       \<and> map row_name inlineRows = map fst bps))"
proof -
  have rows: "buildParameterRows doc (Some root) secs' = Some []"
    if "properties root = None" for secs' root
    using that by (simp add: buildParameterRows_def)
  have index: "buildReferenceIndex lc doc (Some root)
          = map_option (\<lambda>built. \<lparr>parameterRows = [], sections = built\<rparr>)
              (Option.bind (collectRefsFromSchemas doc [Some root]) (buildSectionsFromRefs lc doc))"
    if "properties root = None"
  proof (cases "collectRefsFromSchemas doc [Some root]")
    case None
    then show ?thesis by (simp add: buildReferenceIndex_def)
  next
    case (Some refs)
    then show ?thesis
      by (cases "buildSectionsFromRefs lc doc refs")
         (simp_all add: buildReferenceIndex_def rows[OF that])
  qed
  have p: "getSchemaProperties doc (Some root) = getSchemaProperties doc (resolveRef doc (Some root))"
    if "truthy (ref root)"
    using that by (subst getSchemaProperties.simps) simp
  have inline: "buildInlineRows doc (Some root) secs
                  = buildInlineRows doc (resolveRef doc (Some root)) secs"
    if "truthy (ref root)"
  proof -
    have q: "getSchemaRequired doc (Some root) = getSchemaRequired doc (resolveRef doc (Some root))"
      using that by (subst getSchemaRequired.simps) simp
    show ?thesis by (simp only: buildInlineRows_def[of doc "Some root"] p[OF that] q)
         (simp only: buildInlineRows_def[symmetric])
  qed
  have deref: "getSchemaProperties doc (Some root) = Some (Some tps)
        \<and> (\<forall>inlineRows. buildInlineRows doc (Some root) secs = Some inlineRows \<longrightarrow>
              map row_name inlineRows = map fst tps)"
    if r: "truthy (ref root)" "resolveRef doc (Some root) = Some target"
      and t: "\<not> truthy (ref target)" "type target = Some ''object''" "properties target = Some tps"
  proof -
    have 1: "getSchemaProperties doc (Some root) = Some (Some tps)"
      using p[OF r(1)] getSchemaProperties_object[OF t, of doc] by (simp add: r(2))
    from 1 buildInlineRows_names[OF 1] show ?thesis by blast
  qed
  have own: "map param_name rows = map fst ps
        \<and> map param_typeLabel rows = map (\<lambda>(n, prop). getTypeLabel doc (Some prop)) ps
        \<and> map param_required rows
            = map (\<lambda>(n, prop). n \<in> set (case required root of Some q \<Rightarrow> q | None \<Rightarrow> [])) ps"
    if "properties root = Some ps" "buildParameterRows doc (Some root) secs = Some rows"
    using buildParameterRows_own[OF that] by blast
  have returns: "\<exists>rows. buildParameterRows doc (Some root) secs = Some rows"
    if "properties root = Some ps" "\<forall>(n, prop) \<in> set ps. \<exists>t. prop = typed t"
    using that by (rule buildParameterRows_typed)
  have walk: "buildParameterRows doc (Some wrapper) secs = Some []
        \<and> getSchemaProperties doc (Some wrapper) = Some (Some bps)
        \<and> (\<forall>inlineRows. buildInlineRows doc (Some wrapper) secs = Some inlineRows \<longrightarrow>
              map row_name inlineRows = map fst bps)"
    if w: "wrapper \<in> {allOf_only (b # bs), any_of (b # bs), one_of (b # bs)}"
      and b: "\<not> truthy (ref b)" "type b = Some ''object''" "properties b = Some bps"
  proof -
    from w have "properties wrapper = None"
      by (auto simp: allOf_only_fields any_of_properties one_of_fields)
    then have 1: "buildParameterRows doc (Some wrapper) secs = Some []" by (rule rows)
    have 2: "getSchemaProperties doc (Some wrapper) = Some (Some bps)"
      using w b by (rule getSchemaProperties_wrapper)
    from 1 2 buildInlineRows_names[OF 2] show ?thesis by blast
  qed
  have walk_returns: "\<exists>inlineRows. buildInlineRows doc (Some wrapper) secs = Some inlineRows
                       \<and> map row_name inlineRows = map fst bps"
    if w: "wrapper \<in> {allOf_only [b], any_of [b], one_of [b]}"
      and b: "\<not> truthy (ref b)" "type b = Some ''object''" "properties b = Some bps"
      and l: "\<forall>(n, prop) \<in> set bps. \<exists>t. prop = typed t"
  proof -
    have 1: "getSchemaProperties doc (Some wrapper) = Some (Some bps)"
      using w b by (rule getSchemaProperties_wrapper)
    have 2: "getSchemaRequired doc (Some wrapper)
               = Some (case required b of None \<Rightarrow> [] | Some r \<Rightarrow> r)"
      using w b(1,2) by (rule getSchemaRequired_single_wrapper)
    from buildInlineRows_typed[OF 1 2 l] obtain inlineRows
      where 3: "buildInlineRows doc (Some wrapper) secs = Some inlineRows" by blast
    from 3 buildInlineRows_names[OF 1 3] show ?thesis by blast
  qed
  have "properties (ref_node r) = None" by (simp add: ref_node_def)
  with rows index have first: "root = ref_node r \<or> properties root = None \<longrightarrow>
      buildParameterRows doc (Some root) secs = Some []
      \<and> buildReferenceIndex lc doc (Some root)
          = map_option (\<lambda>built. \<lparr>parameterRows = [], sections = built\<rparr>)
              (Option.bind (collectRefsFromSchemas doc [Some root]) (buildSectionsFromRefs lc doc))"
    by blast
  from own have second: "properties root = Some ps \<and> buildParameterRows doc (Some root) secs = Some rows \<longrightarrow>
        map param_name rows = map fst ps
        \<and> map param_typeLabel rows = map (\<lambda>(n, prop). getTypeLabel doc (Some prop)) ps
        \<and> map param_required rows
            = map (\<lambda>(n, prop). n \<in> set (case required root of Some q \<Rightarrow> q | None \<Rightarrow> [])) ps"
    by blast
  from returns have third: "properties root = Some ps \<and> (\<forall>(n, prop) \<in> set ps. \<exists>t. prop = typed t) \<longrightarrow>
        (\<exists>rows. buildParameterRows doc (Some root) secs = Some rows)"
    by blast
  from inline have fourth: "truthy (ref root) \<longrightarrow>
        buildInlineRows doc (Some root) secs = buildInlineRows doc (resolveRef doc (Some root)) secs"
    by blast
  from deref have fifth: "truthy (ref root) \<and> resolveRef doc (Some root) = Some target \<and> \<not> truthy (ref target)
        \<and> type target = Some ''object'' \<and> properties target = Some tps \<longrightarrow>
        getSchemaProperties doc (Some root) = Some (Some tps)
        \<and> (\<forall>inlineRows. buildInlineRows doc (Some root) secs = Some inlineRows \<longrightarrow>
              map row_name inlineRows = map fst tps)"
    by blast
  from walk have sixth: "wrapper \<in> {allOf_only (b # bs), any_of (b # bs), one_of (b # bs)}
        \<and> \<not> truthy (ref b) \<and> type b = Some ''object'' \<and> properties b = Some bps \<longrightarrow>
        buildParameterRows doc (Some wrapper) secs = Some []
        \<and> getSchemaProperties doc (Some wrapper) = Some (Some bps)
        \<and> (\<forall>inlineRows. buildInlineRows doc (Some wrapper) secs = Some inlineRows \<longrightarrow>
              map row_name inlineRows = map fst bps)"
    by blast
  from walk_returns have seventh: "wrapper \<in> {allOf_only [b], any_of [b], one_of [b]}
        \<and> \<not> truthy (ref b) \<and> type b = Some ''object'' \<and> properties b = Some bps
        \<and> (\<forall>(n, prop) \<in> set bps. \<exists>t. prop = typed t) \<longrightarrow>
        (\<exists>inlineRows. buildInlineRows doc (Some wrapper) secs = Some inlineRows
                       \<and> map row_name inlineRows = map fst bps)"
    by blast
  from first second third fourth fifth sixth seventh show ?thesis by (intro conjI)
qed

theorem buildParameterRows_root_only_witness:
  "properties (ref_node ''#/components/schemas/Req'') = None
   \<and> truthy (ref (ref_node ''#/components/schemas/Req''))
   \<and> resolveRef doc10 (Some (ref_node ''#/components/schemas/Req''))
       = Some (object_of [(''q'', typed ''string'')])
   \<and> buildParameterRows doc10 (Some (ref_node ''#/components/schemas/Req'')) no_sections = Some []
   \<and> buildReferenceIndex lc0 doc10 (Some (ref_node ''#/components/schemas/Req''))
      = Some \<lparr>parameterRows = [],
               sections = \<lparr>enums = [],
                 objects = [\<lparr>object_kind = Kind_object, object_id = ''object-Req'',
                    object_name = ''Req'', object_title = ''Req'', object_description = [],
                    object_rows = [q_row]\<rparr>],
                 unions = [],
                 byName = [(''Req'', \<lparr>ref_id = ''object-Req'', ref_kind = Kind_object\<rparr>)]\<rparr>\<rparr>
   \<and> buildInlineRows doc10 (Some (ref_node ''#/components/schemas/Req'')) no_sections = Some [q_row]
   \<and> properties (object_of [(''q'', typed ''string'')]) = Some [(''q'', typed ''string'')]
   \<and> buildParameterRows doc10 (Some (object_of [(''q'', typed ''string'')])) no_sections
       = Some [q_param]
   \<and> map param_name [q_param] = map fst [(''q'', typed ''string'')]
   \<and> allOf_wrapper \<in> {allOf_only [object_of [(''q'', typed ''string'')]],
                        any_of [object_of [(''q'', typed ''string'')]],
                        one_of [object_of [(''q'', typed ''string'')]]}
   \<and> buildParameterRows doc10 (Some allOf_wrapper) no_sections = Some []
   \<and> buildReferenceIndex lc0 doc10 (Some allOf_wrapper)
       = Some \<lparr>parameterRows = [], sections = no_sections\<rparr>
   \<and> getSchemaProperties doc10 (Some allOf_wrapper) = Some (Some [(''q'', typed ''string'')])
   \<and> buildInlineRows doc10 (Some allOf_wrapper) no_sections = Some [q_row]
   \<and> map row_name [q_row] = map fst [(''q'', typed ''string'')]"
proof -
  let ?R = "ref_node ''#/components/schemas/Req''"
  let ?O = "object_of [(''q'', typed ''string'')]"
  have h1: "properties ?R = None"
    by (simp add: ref_node_def)
  have h2: "truthy (ref ?R)"
    by (simp add: ref_node_def truthy_def)
  have h3: "\<not> truthy (ref ?O)" "type ?O = Some ''object''"
    "properties ?O = Some [(''q'', typed ''string'')]" "required ?O = None"
    by (simp_all add: object_of_def truthy_def)
  have h4: "\<forall>(n, prop) \<in> set [(''q'', typed ''string'')]. \<exists>t. prop = typed t"
    by auto
  have h5: "allOf_wrapper \<in> {allOf_only [?O], any_of [?O], one_of [?O]}"
    by (simp add: allOf_wrapper_def)
  have r: "resolveRef doc10 (Some ?R) = Some ?O"
    by (simp add: model_defs doc10_def)
  have c: "collectRefsFromSchemas doc10 [Some ?R] = Some [(''Req'', ?O)]"
    by (simp add: classifier_unfold model_defs doc10_def object_of_def)
  have b: "buildSectionsFromRefs lc0 doc10 [(''Req'', ?O)]
             = Some \<lparr>enums = [],
                 objects = [\<lparr>object_kind = Kind_object, object_id = ''object-Req'',
                    object_name = ''Req'', object_title = ''Req'', object_description = [],
                    object_rows = [q_row]\<rparr>],
                 unions = [],
                 byName = [(''Req'', \<lparr>ref_id = ''object-Req'', ref_kind = Kind_object\<rparr>)]\<rparr>"
    by (simp add: classifier_unfold model_defs doc10_def object_of_def lc0_def q_row_def Let_def)
  have i: "buildInlineRows doc10 (Some ?O) no_sections = Some [q_row]"
    by (simp add: classifier_unfold model_defs doc10_def object_of_def no_sections_def q_row_def
          Let_def)
  have o: "buildParameterRows doc10 (Some ?O) no_sections = Some [q_param]"
    by (simp add: classifier_unfold model_defs doc10_def object_of_def no_sections_def q_param_def
          Let_def)
  have cw: "collectRefsFromSchemas doc10 [Some allOf_wrapper] = Some []"
    by (simp add: classifier_unfold model_defs doc10_def object_of_def allOf_wrapper_def
          allOf_only_def)
  have bw: "buildSectionsFromRefs lc0 doc10 [] = Some no_sections"
    by (simp add: classifier_unfold model_defs no_sections_def Let_def)
  have iw: "buildInlineRows doc10 (Some allOf_wrapper) no_sections = Some [q_row]"
    by (simp add: classifier_unfold model_defs doc10_def object_of_def allOf_wrapper_def
          allOf_only_def no_sections_def q_row_def Let_def)
  note t1 = buildParameterRows_root_only
              [where root = "?R" and r = "''#/components/schemas/Req''" and doc = doc10
                 and secs = no_sections and lc = lc0 and target = "?O"
                 and tps = "[(''q'', typed ''string'')]"]
  note t2 = buildParameterRows_root_only
              [where root = "?O" and doc = doc10 and secs = no_sections
                 and ps = "[(''q'', typed ''string'')]" and rows = "[q_param]"]
  note t3 = buildParameterRows_root_only
              [where root = allOf_wrapper and wrapper = allOf_wrapper and b = "?O" and bs = "[]"
                 and bps = "[(''q'', typed ''string'')]" and doc = doc10 and secs = no_sections
                 and lc = lc0]
  have w: "properties allOf_wrapper = None"
    by (simp add: allOf_wrapper_def allOf_only_def)
  show ?thesis
    using t1 t2 t3 h1 h2 h3 h4 h5 w
    by (simp add: r c b i o cw bw iw q_param_def q_row_def del: getTypeLabel.simps)
qed

end
